theory Spec2Isabelle
  imports Main "HOL-Library.Word"
begin

unbundle bit_operations_syntax

section \<open>The jsmn tokenizer (jsmn.h)\<close>

text \<open>
  A shallow embedding of \<^verbatim>\<open>jsmn.h\<close>. The three preprocessor switches of the header
  (\<^verbatim>\<open>JSMN_PERMISSIVE\<close>, \<^verbatim>\<open>JSMN_PARENT_LINKS\<close>, \<^verbatim>\<open>JSMN_NEXT_SIBLING\<close>) are the fields
  of a configuration record, and every \<^verbatim>\<open>#ifdef\<close> of the source is an \<open>if\<close> on it.
  \<^verbatim>\<open>jsmnint_t\<close> is \<^verbatim>\<open>unsigned int\<close>, a 32-bit word whose arithmetic wraps; the
  sentinel \<^verbatim>\<open>JSMN_NEG\<close> is \<open>-1\<close>. The error codes are returned through the same
  unsigned type, as in the source.
\<close>

subsection \<open>Types and constants\<close>

type_synonym jsmnint_t = "32 word"
type_synonym jsmntype_t = "32 word"

record jsmn_config =
  JSMN_PERMISSIVE :: bool
  JSMN_PARENT_LINKS :: bool
  JSMN_NEXT_SIBLING :: bool

definition JSMN_UNDEFINED :: jsmntype_t where "JSMN_UNDEFINED = 0x00"
definition JSMN_OBJECT :: jsmntype_t where "JSMN_OBJECT = 0x01"
definition JSMN_ARRAY :: jsmntype_t where "JSMN_ARRAY = 0x02"
definition JSMN_STRING :: jsmntype_t where "JSMN_STRING = 0x04"
definition JSMN_PRIMITIVE :: jsmntype_t where "JSMN_PRIMITIVE = 0x08"
definition JSMN_KEY :: jsmntype_t where "JSMN_KEY = 0x10"
definition JSMN_VALUE :: jsmntype_t where "JSMN_VALUE = 0x20"
definition JSMN_CLOSE :: jsmntype_t where "JSMN_CLOSE = 0x40"
definition JSMN_DELIMITER :: jsmntype_t where "JSMN_DELIMITER = 0x80"
definition JSMN_CONTAINER :: jsmntype_t where
  "JSMN_CONTAINER = JSMN_OBJECT OR JSMN_ARRAY"
definition JSMN_ANY_TYPE :: jsmntype_t where
  "JSMN_ANY_TYPE = JSMN_OBJECT OR JSMN_ARRAY OR JSMN_STRING OR JSMN_PRIMITIVE"

definition JSMN_SUCCESS :: jsmnint_t where "JSMN_SUCCESS = 0"
definition JSMN_ERROR_NOMEM :: jsmnint_t where "JSMN_ERROR_NOMEM = - 1"
definition JSMN_ERROR_INVAL :: jsmnint_t where "JSMN_ERROR_INVAL = - 2"
definition JSMN_ERROR_PART :: jsmnint_t where "JSMN_ERROR_PART = - 3"

definition JSMN_NEG :: jsmnint_t where "JSMN_NEG = - 1"

text \<open>
  A token. The fields \<open>tok_parent\<close> and \<open>tok_next_sibling\<close> exist in the C struct only
  under \<^verbatim>\<open>JSMN_PARENT_LINKS\<close> and \<^verbatim>\<open>JSMN_NEXT_SIBLING\<close>; the model never reads or
  writes them when the switch is off.
\<close>

record jsmntok_t =
  tok_type :: jsmntype_t
  tok_start :: jsmnint_t
  tok_end :: jsmnint_t
  tok_size :: jsmnint_t
  tok_parent :: jsmnint_t
  tok_next_sibling :: jsmnint_t

record jsmn_parser =
  pos :: jsmnint_t
  toknext :: jsmnint_t
  toksuper :: jsmnint_t
  expected :: jsmntype_t

text \<open>
  The token pool is a list (the caller's array) or \<open>None\<close> for a \<^verbatim>\<open>NULL\<close> pointer;
  \<^verbatim>\<open>num_tokens\<close> is passed beside it, as in C. An access \<^verbatim>\<open>tokens[i]\<close> outside the
  array, or through the \<^verbatim>\<open>NULL\<close> pointer, has no defined behaviour in C: the model makes
  it the outcome \<open>Fault\<close>. A loop of the source that may run forever is a partial
  function into \<open>option\<close>, where \<open>None\<close> is a call that does not return.
\<close>

datatype 'a exec = Fault | Ok 'a

type_synonym jsmn_ret = "jsmnint_t \<times> jsmn_parser \<times> jsmntok_t list option"

text \<open>How the body of the scan loop of \<^verbatim>\<open>jsmn_parse\<close> is left: by \<^verbatim>\<open>break\<close> out of
  the switch, with the local \<^verbatim>\<open>count\<close>, or by \<^verbatim>\<open>return\<close>.\<close>

datatype flow =
    Break jsmnint_t jsmn_parser "jsmntok_t list option"
  | Return jsmnint_t jsmn_parser "jsmntok_t list option"

subsection \<open>Helpers\<close>

definition jsmn_is_type :: "jsmntok_t \<Rightarrow> jsmntype_t \<Rightarrow> jsmntype_t" where
  "jsmn_is_type token ty = tok_type token AND ty"

definition jsmn_is_expected :: "jsmn_parser \<Rightarrow> jsmntype_t \<Rightarrow> jsmntype_t" where
  "jsmn_is_expected parser ty = expected parser AND ty"

text \<open>\<^verbatim>\<open>token->start != JSMN_NEG && token->end == JSMN_NEG\<close>: an opened container that
  has not been closed.\<close>

definition tok_open :: "jsmntok_t \<Rightarrow> bool" where
  "tok_open token \<longleftrightarrow> tok_start token \<noteq> JSMN_NEG \<and> tok_end token = JSMN_NEG"

text \<open>\<^verbatim>\<open>jsmn_alloc_token\<close>: \<open>Ok None\<close> is the \<^verbatim>\<open>NULL\<close> result; otherwise the index of
  the new token, the parser with \<open>toknext\<close> advanced and the pool with the token reset.\<close>

definition jsmn_alloc_token ::
  "jsmn_config \<Rightarrow> jsmn_parser \<Rightarrow> jsmntok_t list \<Rightarrow> nat \<Rightarrow>
     (nat \<times> jsmn_parser \<times> jsmntok_t list) option exec" where
  "jsmn_alloc_token cfg parser tokens num_tokens =
     (if num_tokens \<le> unat (toknext parser) then Ok None
      else if length tokens \<le> unat (toknext parser) then Fault
      else
        let i = unat (toknext parser);
            tok = (tokens ! i)\<lparr>tok_start := JSMN_NEG, tok_end := JSMN_NEG, tok_size := 0\<rparr>;
            tok' = (if JSMN_PARENT_LINKS cfg then tok\<lparr>tok_parent := JSMN_NEG\<rparr> else tok);
            tok'' = (if JSMN_NEXT_SIBLING cfg then tok'\<lparr>tok_next_sibling := JSMN_NEG\<rparr>
                     else tok')
        in Ok (Some (i, parser\<lparr>toknext := toknext parser + 1\<rparr>, tokens[i := tok''])))"

definition jsmn_fill_token ::
  "jsmntok_t \<Rightarrow> jsmntype_t \<Rightarrow> jsmnint_t \<Rightarrow> jsmnint_t \<Rightarrow> jsmntok_t" where
  "jsmn_fill_token token ty start end =
     token\<lparr>tok_type := ty, tok_start := start, tok_end := end, tok_size := 0\<rparr>"

text \<open>The \<^verbatim>\<open>while\<close> loop of \<^verbatim>\<open>jsmn_next_sibling\<close>: follow \<open>next_sibling\<close> until it is
  \<^verbatim>\<open>JSMN_NEG\<close>.\<close>

partial_function (option) sibling_loop ::
  "jsmntok_t list \<Rightarrow> jsmnint_t \<Rightarrow> jsmnint_t exec option" where
  "sibling_loop tokens sibling =
     (if unat sibling < length tokens then
        (if tok_next_sibling (tokens ! unat sibling) \<noteq> JSMN_NEG
         then sibling_loop tokens (tok_next_sibling (tokens ! unat sibling))
         else Some (Ok sibling))
      else Some Fault)"

definition jsmn_next_sibling ::
  "jsmn_parser \<Rightarrow> jsmntok_t list \<Rightarrow> jsmntok_t list exec option" where
  "jsmn_next_sibling parser tokens =
     (let sibling = (if toksuper parser \<noteq> JSMN_NEG then toksuper parser + 1 else 0) in
      if sibling = toknext parser - 1 then Some (Ok tokens)
      else
        (case sibling_loop tokens sibling of
           None \<Rightarrow> None
         | Some Fault \<Rightarrow> Some Fault
         | Some (Ok s) \<Rightarrow>
             Some (Ok (tokens[unat s :=
                (tokens ! unat s)\<lparr>tok_next_sibling := toknext parser - 1\<rparr>]))))"

text \<open>The block that \<^verbatim>\<open>jsmn_parse_primitive\<close> and \<^verbatim>\<open>jsmn_parse_string\<close> both start
  with under \<^verbatim>\<open>JSMN_PERMISSIVE\<close> and \<^verbatim>\<open>JSMN_PARENT_LINKS\<close>: a token that follows a
  key/value pair without a comma moves \<open>toksuper\<close> up.\<close>

definition toksuper_fix ::
  "jsmn_config \<Rightarrow> jsmn_parser \<Rightarrow> jsmntok_t list option \<Rightarrow> jsmn_parser exec" where
  "toksuper_fix cfg parser tokens =
     (case tokens of
        None \<Rightarrow> Ok parser
      | Some toks \<Rightarrow>
          if JSMN_PERMISSIVE cfg \<and> JSMN_PARENT_LINKS cfg \<and> 2 \<le> toknext parser \<and>
             jsmn_is_expected parser JSMN_DELIMITER \<noteq> 0
          then
            (if unat (toknext parser - 2) < length toks then
               (if jsmn_is_type (toks ! unat (toknext parser - 2)) JSMN_KEY \<noteq> 0 then
                  (if unat (toksuper parser) < length toks
                   then Ok (parser\<lparr>toksuper := tok_parent (toks ! unat (toksuper parser))\<rparr>)
                   else Fault)
                else Ok parser)
             else Fault)
          else Ok parser)"

subsection \<open>The primitive scanner\<close>

datatype scan = Scan_Found jsmnint_t | Scan_Inval | Scan_End jsmnint_t

text \<open>The characters at which \<^verbatim>\<open>jsmn_parse_primitive\<close> jumps to \<^verbatim>\<open>found\<close>; the colon
  only under \<^verbatim>\<open>JSMN_PERMISSIVE\<close>.\<close>

definition prim_terminator :: "jsmn_config \<Rightarrow> char \<Rightarrow> bool" where
  "prim_terminator cfg c \<longleftrightarrow>
     (JSMN_PERMISSIVE cfg \<and> c = CHR '':'') \<or> c = CHR '' '' \<or> c = CHR 0x09 \<or>
     c = CHR 0x0A \<or> c = CHR 0x0D \<or> c = CHR '','' \<or> c = CHR '']'' \<or> c = CHR ''}''"

text \<open>The \<^verbatim>\<open>for\<close> loop of \<^verbatim>\<open>jsmn_parse_primitive\<close>. \<open>Scan_End\<close> is the loop running to
  the end of the buffer or to a null byte. The test \<^verbatim>\<open>js[pos] < 32 || js[pos] >= 127\<close>
  is on a \<^verbatim>\<open>char\<close>: a byte above 127 fails it whether \<^verbatim>\<open>char\<close> is signed or not.\<close>

partial_function (option) prim_scan ::
  "jsmn_config \<Rightarrow> string \<Rightarrow> nat \<Rightarrow> jsmnint_t \<Rightarrow> scan option" where
  "prim_scan cfg js len p =
     (if unat p < len \<and> js ! unat p \<noteq> CHR 0x00 then
        (if prim_terminator cfg (js ! unat p) then Some (Scan_Found p)
         else if (of_char (js ! unat p) :: nat) < 32 \<or> 127 \<le> (of_char (js ! unat p) :: nat)
         then Some Scan_Inval
         else prim_scan cfg js len (p + 1))
      else Some (Scan_End p))"

text \<open>The loop \<^verbatim>\<open>for (i = parser->toksuper; i != JSMN_NEG; i--)\<close> of the permissive
  build without parent links: \<open>True\<close> when it reaches index 0 without meeting a
  container, the case in which \<^verbatim>\<open>JSMN_ANY_TYPE\<close> is added to \<open>expected\<close>. The second
  argument is \<open>i + 1\<close>.\<close>

fun no_container_from :: "jsmntok_t list \<Rightarrow> nat \<Rightarrow> bool exec" where
  "no_container_from tokens 0 = Ok True"
| "no_container_from tokens (Suc i) =
     (if length tokens \<le> i then Fault
      else if jsmn_is_type (tokens ! i) JSMN_CONTAINER \<noteq> 0 then Ok False
      else no_container_from tokens i)"

text \<open>\<^verbatim>\<open>jsmn_parse_primitive\<close> from the label \<^verbatim>\<open>found\<close> on; \<open>start\<close> is the local of that
  name.\<close>

definition prim_found ::
  "jsmn_config \<Rightarrow> jsmn_parser \<Rightarrow> jsmntok_t list option \<Rightarrow> nat \<Rightarrow> jsmnint_t \<Rightarrow>
     jsmn_ret exec option" where
  "prim_found cfg parser tokens num_tokens start =
     (case tokens of
        None \<Rightarrow> Some (Ok (JSMN_SUCCESS, parser\<lparr>pos := pos parser - 1\<rparr>, None))
      | Some toks \<Rightarrow>
         (case jsmn_alloc_token cfg parser toks num_tokens of
            Fault \<Rightarrow> Some Fault
          | Ok None \<Rightarrow> Some (Ok (JSMN_ERROR_NOMEM, parser\<lparr>pos := start\<rparr>, tokens))
          | Ok (Some (i, parser1, toks1)) \<Rightarrow>
             (let toks2 = toks1[i := jsmn_fill_token (toks1 ! i) JSMN_PRIMITIVE start (pos parser1)]
              in
              case
                (if \<not> JSMN_PERMISSIVE cfg
                 then Ok (toks2[i := (toks2 ! i)\<lparr>tok_type := tok_type (toks2 ! i) OR JSMN_VALUE\<rparr>])
                 else if toksuper parser1 \<noteq> JSMN_NEG then
                   (if unat (toksuper parser1) < length toks2 then
                      (if jsmn_is_type (toks2 ! unat (toksuper parser1)) JSMN_KEY \<noteq> 0
                       then Ok (toks2[i := (toks2 ! i)\<lparr>tok_type := tok_type (toks2 ! i) OR JSMN_VALUE\<rparr>])
                       else Ok toks2)
                    else Fault)
                 else Ok toks2)
              of
                Fault \<Rightarrow> Some Fault
              | Ok toks3 \<Rightarrow>
                 (let parser2 = parser1\<lparr>expected := JSMN_DELIMITER OR JSMN_CLOSE\<rparr> in
                  case
                    (if JSMN_PERMISSIVE cfg then
                       (if JSMN_PARENT_LINKS cfg then
                          (if toksuper parser2 \<noteq> JSMN_NEG then
                             (if unat (toksuper parser2) < length toks3 then
                                (if tok_parent (toks3 ! unat (toksuper parser2)) = JSMN_NEG
                                 then Ok (parser2\<lparr>expected := expected parser2 OR JSMN_ANY_TYPE\<rparr>)
                                 else Ok parser2)
                              else Fault)
                           else Ok parser2)
                        else
                          (if toksuper parser2 \<noteq> JSMN_NEG then
                             (case no_container_from toks3 (Suc (unat (toksuper parser2))) of
                                Fault \<Rightarrow> Fault
                              | Ok True \<Rightarrow> Ok (parser2\<lparr>expected := expected parser2 OR JSMN_ANY_TYPE\<rparr>)
                              | Ok False \<Rightarrow> Ok parser2)
                           else Ok parser2))
                     else Ok parser2)
                  of
                    Fault \<Rightarrow> Some Fault
                  | Ok parser3 \<Rightarrow>
                     (let toks4 = (if JSMN_PARENT_LINKS cfg
                                   then toks3[i := (toks3 ! i)\<lparr>tok_parent := toksuper parser3\<rparr>]
                                   else toks3)
                      in
                      case (if JSMN_NEXT_SIBLING cfg then jsmn_next_sibling parser3 toks4
                            else Some (Ok toks4)) of
                        None \<Rightarrow> None
                      | Some Fault \<Rightarrow> Some Fault
                      | Some (Ok toks5) \<Rightarrow>
                          Some (Ok (JSMN_SUCCESS, parser3\<lparr>pos := pos parser3 - 1\<rparr>, Some toks5)))))))"

text \<open>\<^verbatim>\<open>jsmn_parse_primitive\<close>. Without \<^verbatim>\<open>JSMN_PERMISSIVE\<close> the end of the buffer is
  \<^verbatim>\<open>JSMN_ERROR_PART\<close>; with it the code falls through to \<^verbatim>\<open>found\<close>.\<close>

definition jsmn_parse_primitive ::
  "jsmn_config \<Rightarrow> jsmn_parser \<Rightarrow> string \<Rightarrow> nat \<Rightarrow> jsmntok_t list option \<Rightarrow> nat \<Rightarrow>
     jsmn_ret exec option" where
  "jsmn_parse_primitive cfg parser js len tokens num_tokens =
     (if tokens \<noteq> None \<and> jsmn_is_expected parser JSMN_PRIMITIVE = 0
      then Some (Ok (JSMN_ERROR_INVAL, parser, tokens))
      else
        (case toksuper_fix cfg parser tokens of
           Fault \<Rightarrow> Some Fault
         | Ok parser1 \<Rightarrow>
            (let start = pos parser1 in
             case prim_scan cfg js len start of
               None \<Rightarrow> None
             | Some Scan_Inval \<Rightarrow> Some (Ok (JSMN_ERROR_INVAL, parser1\<lparr>pos := start\<rparr>, tokens))
             | Some (Scan_End e) \<Rightarrow>
                 (if \<not> JSMN_PERMISSIVE cfg
                  then Some (Ok (JSMN_ERROR_PART, parser1\<lparr>pos := start\<rparr>, tokens))
                  else prim_found cfg (parser1\<lparr>pos := e\<rparr>) tokens num_tokens start)
             | Some (Scan_Found e) \<Rightarrow>
                 prim_found cfg (parser1\<lparr>pos := e\<rparr>) tokens num_tokens start)))"

subsection \<open>The string scanner\<close>

definition hex_digit :: "char \<Rightarrow> bool" where
  "hex_digit c \<longleftrightarrow>
     (48 \<le> (of_char c :: nat) \<and> (of_char c :: nat) \<le> 57) \<or>
     (65 \<le> (of_char c :: nat) \<and> (of_char c :: nat) \<le> 70) \<or>
     (97 \<le> (of_char c :: nat) \<and> (of_char c :: nat) \<le> 102)"

text \<open>The loop over the digits of \<^verbatim>\<open>\uXXXX\<close>: the first argument is \<open>4 - i\<close>. \<open>None\<close>
  is the \<^verbatim>\<open>JSMN_ERROR_INVAL\<close> return; otherwise the position the loop ends at.\<close>

fun hex_scan :: "nat \<Rightarrow> string \<Rightarrow> nat \<Rightarrow> jsmnint_t \<Rightarrow> jsmnint_t option" where
  "hex_scan 0 js len p = Some p"
| "hex_scan (Suc k) js len p =
     (if unat p < len \<and> js ! unat p \<noteq> CHR 0x00 then
        (if hex_digit (js ! unat p) then hex_scan k js len (p + 1) else None)
      else Some p)"

definition escape_char :: "char \<Rightarrow> bool" where
  "escape_char c \<longleftrightarrow>
     c = CHR 0x22 \<or> c = CHR 0x5C \<or> c = CHR ''/'' \<or> c = CHR ''b'' \<or> c = CHR ''f'' \<or>
     c = CHR ''n'' \<or> c = CHR ''r'' \<or> c = CHR ''t''"

text \<open>The \<^verbatim>\<open>for\<close> loop of \<^verbatim>\<open>jsmn_parse_string\<close>, from the position after the opening
  quote. \<open>Scan_Found\<close> is the closing quote, \<open>Scan_End\<close> the end of the buffer.\<close>

partial_function (option) str_scan :: "string \<Rightarrow> nat \<Rightarrow> jsmnint_t \<Rightarrow> scan option" where
  "str_scan js len p =
     (if unat p < len \<and> js ! unat p \<noteq> CHR 0x00 then
        (if js ! unat p = CHR 0x22 then Some (Scan_Found p)
         else if js ! unat p = CHR 0x5C \<and> unat (p + 1) < len then
           (if escape_char (js ! unat (p + 1)) then str_scan js len (p + 1 + 1)
            else if js ! unat (p + 1) = CHR ''u'' then
              (case hex_scan 4 js len (p + 1 + 1) of
                 None \<Rightarrow> Some Scan_Inval
               | Some q \<Rightarrow> str_scan js len (q - 1 + 1))
            else Some Scan_Inval)
         else str_scan js len (p + 1))
      else Some (Scan_End p))"

text \<open>\<^verbatim>\<open>jsmn_parse_string\<close> at the closing quote, with a token pool; \<open>parser\<close> has
  \<open>pos\<close> at the quote.\<close>

definition str_found ::
  "jsmn_config \<Rightarrow> jsmn_parser \<Rightarrow> jsmntok_t list \<Rightarrow> nat \<Rightarrow> jsmnint_t \<Rightarrow>
     jsmn_ret exec option" where
  "str_found cfg parser toks num_tokens start =
     (case jsmn_alloc_token cfg parser toks num_tokens of
        Fault \<Rightarrow> Some Fault
      | Ok None \<Rightarrow> Some (Ok (JSMN_ERROR_NOMEM, parser\<lparr>pos := start\<rparr>, Some toks))
      | Ok (Some (i, parser1, toks1)) \<Rightarrow>
         (let toks2 = toks1[i := jsmn_fill_token (toks1 ! i) JSMN_STRING (start + 1) (pos parser1)]
          in
          case
            (if \<not> JSMN_PERMISSIVE cfg then
               (if unat (toksuper parser1) < length toks2 then
                  (if jsmn_is_type (toks2 ! unat (toksuper parser1)) JSMN_OBJECT \<noteq> 0 then
                     (if unat (toknext parser1 - 2) < length toks2 then
                        (if jsmn_is_type (toks2 ! unat (toknext parser1 - 2))
                              (JSMN_OBJECT OR JSMN_VALUE) \<noteq> 0
                         then Ok (toks2[i := (toks2 ! i)\<lparr>tok_type := tok_type (toks2 ! i) OR JSMN_KEY\<rparr>],
                                  parser1\<lparr>expected := JSMN_DELIMITER\<rparr>)
                         else Ok (toks2[i := (toks2 ! i)\<lparr>tok_type := tok_type (toks2 ! i) OR JSMN_VALUE\<rparr>],
                                  parser1\<lparr>expected := JSMN_DELIMITER OR JSMN_CLOSE\<rparr>))
                      else Fault)
                   else Ok (toks2[i := (toks2 ! i)\<lparr>tok_type := tok_type (toks2 ! i) OR JSMN_VALUE\<rparr>],
                            parser1\<lparr>expected := JSMN_DELIMITER OR JSMN_CLOSE\<rparr>))
                else Fault)
             else
               (if 2 \<le> toknext parser1 then
                  (if unat (toknext parser1 - 2) < length toks2 then
                     (if jsmn_is_type (toks2 ! unat (toknext parser1 - 2)) JSMN_KEY \<noteq> 0
                      then Ok (toks2[i := (toks2 ! i)\<lparr>tok_type := tok_type (toks2 ! i) OR JSMN_VALUE\<rparr>],
                               parser1\<lparr>expected := JSMN_ANY_TYPE OR JSMN_DELIMITER OR JSMN_CLOSE\<rparr>)
                      else Ok (toks2,
                               parser1\<lparr>expected := JSMN_ANY_TYPE OR JSMN_DELIMITER OR JSMN_CLOSE\<rparr>))
                   else Fault)
                else Ok (toks2,
                         parser1\<lparr>expected := JSMN_ANY_TYPE OR JSMN_DELIMITER OR JSMN_CLOSE\<rparr>)))
          of
            Fault \<Rightarrow> Some Fault
          | Ok (toks3, parser2) \<Rightarrow>
             (let toks4 = (if JSMN_PARENT_LINKS cfg
                           then toks3[i := (toks3 ! i)\<lparr>tok_parent := toksuper parser2\<rparr>]
                           else toks3)
              in
              case (if JSMN_NEXT_SIBLING cfg then jsmn_next_sibling parser2 toks4
                    else Some (Ok toks4)) of
                None \<Rightarrow> None
              | Some Fault \<Rightarrow> Some Fault
              | Some (Ok toks5) \<Rightarrow> Some (Ok (JSMN_SUCCESS, parser2, Some toks5)))))"

definition jsmn_parse_string ::
  "jsmn_config \<Rightarrow> jsmn_parser \<Rightarrow> string \<Rightarrow> nat \<Rightarrow> jsmntok_t list option \<Rightarrow> nat \<Rightarrow>
     jsmn_ret exec option" where
  "jsmn_parse_string cfg parser js len tokens num_tokens =
     (if tokens \<noteq> None \<and> jsmn_is_expected parser JSMN_STRING = 0
      then Some (Ok (JSMN_ERROR_INVAL, parser, tokens))
      else
        (case toksuper_fix cfg parser tokens of
           Fault \<Rightarrow> Some Fault
         | Ok parser1 \<Rightarrow>
            (let start = pos parser1 in
             case str_scan js len (start + 1) of
               None \<Rightarrow> None
             | Some Scan_Inval \<Rightarrow> Some (Ok (JSMN_ERROR_INVAL, parser1\<lparr>pos := start\<rparr>, tokens))
             | Some (Scan_End e) \<Rightarrow> Some (Ok (JSMN_ERROR_PART, parser1\<lparr>pos := start\<rparr>, tokens))
             | Some (Scan_Found e) \<Rightarrow>
                 (case tokens of
                    None \<Rightarrow> Some (Ok (JSMN_SUCCESS, parser1\<lparr>pos := e\<rparr>, None))
                  | Some toks \<Rightarrow> str_found cfg (parser1\<lparr>pos := e\<rparr>) toks num_tokens start))))"

subsection \<open>The driver\<close>

text \<open>The loop \<^verbatim>\<open>for (i = k - 1; i != JSMN_NEG; i--)\<close> that looks for an open token: the
  second argument is \<open>i + 1\<close>, and the loop ends when \<open>i\<close> wraps from 0 to
  \<^verbatim>\<open>JSMN_NEG\<close>. \<open>Ok (Some i)\<close> is the index it breaks at, \<open>Ok None\<close> the loop running
  out.\<close>

fun find_open :: "jsmntok_t list \<Rightarrow> nat \<Rightarrow> nat option exec" where
  "find_open tokens 0 = Ok None"
| "find_open tokens (Suc i) =
     (if length tokens \<le> i then Fault
      else if tok_open (tokens ! i) then Ok (Some i)
      else find_open tokens i)"

text \<open>The same loop in the comma case, which looks for an open container.\<close>

fun find_open_container :: "jsmntok_t list \<Rightarrow> nat \<Rightarrow> nat option exec" where
  "find_open_container tokens 0 = Ok None"
| "find_open_container tokens (Suc i) =
     (if length tokens \<le> i then Fault
      else if jsmn_is_type (tokens ! i) JSMN_CONTAINER \<noteq> 0 \<and> tok_open (tokens ! i)
      then Ok (Some i)
      else find_open_container tokens i)"

text \<open>The \<^verbatim>\<open>for (;;)\<close> loop of the closing bracket under \<^verbatim>\<open>JSMN_PARENT_LINKS\<close>: climb
  the parent links to the first open token (\<open>At_Open\<close>) or to a token without parent
  (\<open>At_Top\<close>).\<close>

datatype climb = At_Open jsmnint_t | At_Top jsmnint_t

partial_function (option) close_loop ::
  "jsmntok_t list \<Rightarrow> jsmnint_t \<Rightarrow> climb exec option" where
  "close_loop tokens i =
     (if unat i < length tokens then
        (if tok_open (tokens ! unat i) then Some (Ok (At_Open i))
         else if tok_parent (tokens ! unat i) = JSMN_NEG then Some (Ok (At_Top i))
         else close_loop tokens (tok_parent (tokens ! unat i)))
      else Some Fault)"

text \<open>\<^verbatim>\<open>case '{': case '[':\<close>\<close>

definition jsmn_open ::
  "jsmn_config \<Rightarrow> char \<Rightarrow> jsmnint_t \<Rightarrow> jsmn_parser \<Rightarrow> jsmntok_t list option \<Rightarrow> nat \<Rightarrow>
     flow exec option" where
  "jsmn_open cfg c count parser tokens num_tokens =
     (case tokens of
        None \<Rightarrow> Some (Ok (Break (count + 1) parser None))
      | Some toks \<Rightarrow>
         (case jsmn_alloc_token cfg parser toks num_tokens of
            Fault \<Rightarrow> Some Fault
          | Ok None \<Rightarrow> Some (Ok (Return JSMN_ERROR_NOMEM parser tokens))
          | Ok (Some (i, parser1, toks1)) \<Rightarrow>
             (let toks2 = toks1[i := (toks1 ! i)\<lparr>tok_type :=
                             (if c = CHR ''{'' then JSMN_OBJECT else JSMN_ARRAY)\<rparr>]
              in
              if jsmn_is_expected parser1 (tok_type (toks2 ! i)) = 0
              then Some (Ok (Return JSMN_ERROR_INVAL parser1 (Some toks2)))
              else
                (let toks3 = toks2[i := (toks2 ! i)\<lparr>tok_type := tok_type (toks2 ! i) OR JSMN_VALUE\<rparr>];
                     parser2 = parser1\<lparr>expected :=
                        (if \<not> JSMN_PERMISSIVE cfg then
                           (if jsmn_is_type (toks3 ! i) JSMN_OBJECT \<noteq> 0
                            then JSMN_STRING OR JSMN_CLOSE
                            else JSMN_ANY_TYPE OR JSMN_CLOSE)
                         else JSMN_ANY_TYPE OR JSMN_CLOSE)\<rparr>
                 in
                 case
                   (if toksuper parser2 \<noteq> JSMN_NEG then
                      (if unat (toksuper parser2) < length toks3 then
                         (let s = unat (toksuper parser2);
                              toks4 = toks3[s := (toks3 ! s)\<lparr>tok_size := tok_size (toks3 ! s) + 1\<rparr>];
                              toks5 = (if JSMN_PARENT_LINKS cfg
                                       then toks4[i := (toks4 ! i)\<lparr>tok_parent := toksuper parser2\<rparr>]
                                       else toks4)
                          in if JSMN_NEXT_SIBLING cfg then jsmn_next_sibling parser2 toks5
                             else Some (Ok toks5))
                       else Some Fault)
                    else Some (Ok toks3))
                 of
                   None \<Rightarrow> None
                 | Some Fault \<Rightarrow> Some Fault
                 | Some (Ok toks6) \<Rightarrow>
                     Some (Ok (Break (count + 1)
                       (parser2\<lparr>toksuper := toknext parser2 - 1\<rparr>)
                       (Some (toks6[i := (toks6 ! i)\<lparr>tok_start := pos parser2\<rparr>]))))))))"

text \<open>The end of \<^verbatim>\<open>case '}': case ']':\<close>, after the bracket has been matched: the new
  \<open>expected\<close>.\<close>

definition close_expected ::
  "jsmn_config \<Rightarrow> jsmnint_t \<Rightarrow> jsmn_parser \<Rightarrow> jsmntok_t list \<Rightarrow> flow exec" where
  "close_expected cfg count parser toks =
     (if toksuper parser = JSMN_NEG then
        (if \<not> JSMN_PERMISSIVE cfg
         then Ok (Break count (parser\<lparr>expected := JSMN_CONTAINER\<rparr>) (Some toks))
         else if unat (toknext parser - 1) < length toks then
           (let l = unat (toknext parser - 1) in
            Ok (Break count (parser\<lparr>expected := JSMN_ANY_TYPE\<rparr>)
                  (Some (toks[l := (toks ! l)\<lparr>tok_type := tok_type (toks ! l) OR JSMN_VALUE\<rparr>]))))
         else Fault)
      else Ok (Break count (parser\<lparr>expected := JSMN_DELIMITER OR JSMN_CLOSE\<rparr>) (Some toks)))"

text \<open>\<^verbatim>\<open>case '}': case ']':\<close>\<close>

definition jsmn_close ::
  "jsmn_config \<Rightarrow> char \<Rightarrow> jsmnint_t \<Rightarrow> jsmn_parser \<Rightarrow> jsmntok_t list option \<Rightarrow>
     flow exec option" where
  "jsmn_close cfg c count parser tokens =
     (case tokens of
        None \<Rightarrow> Some (Ok (Break count parser None))
      | Some toks \<Rightarrow>
         if jsmn_is_expected parser JSMN_CLOSE = 0
         then Some (Ok (Return JSMN_ERROR_INVAL parser tokens))
         else
           (let ty = (if c = CHR ''}'' then JSMN_OBJECT else JSMN_ARRAY) in
            if JSMN_PARENT_LINKS cfg then
              (if toknext parser < 1 then Some (Ok (Return JSMN_ERROR_INVAL parser tokens))
               else
                 (case close_loop toks (toknext parser - 1) of
                    None \<Rightarrow> None
                  | Some Fault \<Rightarrow> Some Fault
                  | Some (Ok (At_Open i)) \<Rightarrow>
                      (if jsmn_is_type (toks ! unat i) ty = 0
                       then Some (Ok (Return JSMN_ERROR_INVAL parser tokens))
                       else
                         Some (close_expected cfg count
                           (parser\<lparr>toksuper := tok_parent (toks ! unat i)\<rparr>)
                           (toks[unat i := (toks ! unat i)\<lparr>tok_end := pos parser + 1\<rparr>])))
                  | Some (Ok (At_Top i)) \<Rightarrow>
                      (if jsmn_is_type (toks ! unat i) ty = 0 \<or> toksuper parser = JSMN_NEG
                       then Some (Ok (Return JSMN_ERROR_INVAL parser tokens))
                       else Some (close_expected cfg count parser toks))))
            else
              (case find_open toks (unat (toknext parser)) of
                 Fault \<Rightarrow> Some Fault
               | Ok None \<Rightarrow> Some (Ok (Return JSMN_ERROR_INVAL parser tokens))
               | Ok (Some i) \<Rightarrow>
                   (if jsmn_is_type (toks ! i) ty = 0
                    then Some (Ok (Return JSMN_ERROR_INVAL parser tokens))
                    else
                      (let parser1 = parser\<lparr>toksuper := JSMN_NEG\<rparr>;
                           toks1 = toks[i := (toks ! i)\<lparr>tok_end := pos parser1 + 1\<rparr>]
                       in
                       case find_open toks1 (Suc i) of
                         Fault \<Rightarrow> Some Fault
                       | Ok None \<Rightarrow> Some (close_expected cfg count parser1 toks1)
                       | Ok (Some j) \<Rightarrow>
                           Some (close_expected cfg count
                                   (parser1\<lparr>toksuper := of_nat j\<rparr>) toks1))))))"

text \<open>\<^verbatim>\<open>case ':':\<close>. The test of \<open>expected\<close> is made with or without a token pool. Under
  \<^verbatim>\<open>JSMN_PERMISSIVE\<close> the statement \<^verbatim>\<open>tokens[parser->toknext - 1].type |= JSMN_KEY\<close> is
  not guarded by \<^verbatim>\<open>tokens != NULL\<close>.\<close>

definition jsmn_colon ::
  "jsmn_config \<Rightarrow> jsmnint_t \<Rightarrow> jsmn_parser \<Rightarrow> jsmntok_t list option \<Rightarrow> flow exec" where
  "jsmn_colon cfg count parser tokens =
     (if jsmn_is_expected parser JSMN_DELIMITER = 0
      then Ok (Return JSMN_ERROR_INVAL parser tokens)
      else if \<not> JSMN_PERMISSIVE cfg then
        (case tokens of
           None \<Rightarrow>
             Ok (Break count
                   (parser\<lparr>expected := JSMN_ANY_TYPE, toksuper := toknext parser - 1\<rparr>) None)
         | Some toks \<Rightarrow>
             if toksuper parser = JSMN_NEG then Ok (Return JSMN_ERROR_INVAL parser tokens)
             else if unat (toknext parser - 1) < length toks then
               (if jsmn_is_type (toks ! unat (toknext parser - 1)) JSMN_KEY = 0
                then Ok (Return JSMN_ERROR_INVAL parser tokens)
                else Ok (Break count
                       (parser\<lparr>expected := JSMN_ANY_TYPE, toksuper := toknext parser - 1\<rparr>)
                       tokens))
             else Fault)
      else
        (case tokens of
           None \<Rightarrow> Fault
         | Some toks \<Rightarrow>
             if unat (toknext parser - 1) < length toks then
               (let l = unat (toknext parser - 1) in
                Ok (Break count
                      (parser\<lparr>expected := JSMN_ANY_TYPE, toksuper := toknext parser - 1\<rparr>)
                      (Some (toks[l := (toks ! l)\<lparr>tok_type := tok_type (toks ! l) OR JSMN_KEY\<rparr>]))))
             else Fault))"

text \<open>The last block of \<^verbatim>\<open>case ',':\<close>: when \<open>toksuper\<close> is not a container, move it to
  the enclosing one.\<close>

definition comma_toksuper ::
  "jsmn_config \<Rightarrow> jsmn_parser \<Rightarrow> jsmntok_t list \<Rightarrow> jsmn_parser exec" where
  "comma_toksuper cfg parser toks =
     (if unat (toksuper parser) < length toks then
        (if jsmn_is_type (toks ! unat (toksuper parser)) JSMN_CONTAINER = 0 then
           (if JSMN_PARENT_LINKS cfg
            then Ok (parser\<lparr>toksuper := tok_parent (toks ! unat (toksuper parser))\<rparr>)
            else
              (case find_open_container toks (unat (toknext parser)) of
                 Fault \<Rightarrow> Fault
               | Ok None \<Rightarrow> Ok parser
               | Ok (Some i) \<Rightarrow> Ok (parser\<lparr>toksuper := of_nat i\<rparr>)))
         else Ok parser)
      else Fault)"

text \<open>\<^verbatim>\<open>case ',':\<close>\<close>

definition jsmn_comma ::
  "jsmn_config \<Rightarrow> jsmnint_t \<Rightarrow> jsmn_parser \<Rightarrow> jsmntok_t list option \<Rightarrow> flow exec" where
  "jsmn_comma cfg count parser tokens =
     (case tokens of
        None \<Rightarrow> Ok (Break count parser None)
      | Some toks \<Rightarrow>
         if toksuper parser = JSMN_NEG then Ok (Break count parser tokens)
         else if jsmn_is_expected parser JSMN_DELIMITER = 0
         then Ok (Return JSMN_ERROR_INVAL parser tokens)
         else if \<not> JSMN_PERMISSIVE cfg then
           (if unat (toknext parser - 1) < length toks then
              (if jsmn_is_type (toks ! unat (toknext parser - 1)) JSMN_KEY \<noteq> 0
               then Ok (Return JSMN_ERROR_INVAL parser tokens)
               else if unat (toksuper parser) < length toks then
                 (let parser1 = parser\<lparr>expected :=
                        (if jsmn_is_type (toks ! unat (toksuper parser)) JSMN_OBJECT \<noteq> 0
                         then JSMN_STRING else JSMN_ANY_TYPE)\<rparr>
                  in case comma_toksuper cfg parser1 toks of
                       Fault \<Rightarrow> Fault
                     | Ok parser2 \<Rightarrow> Ok (Break count parser2 tokens))
               else Fault)
            else Fault)
         else
           (if unat (toknext parser - 1) < length toks then
              (let l = unat (toknext parser - 1);
                   toks1 = toks[l := (toks ! l)\<lparr>tok_type := tok_type (toks ! l) OR JSMN_VALUE\<rparr>];
                   parser1 = parser\<lparr>expected := JSMN_ANY_TYPE\<rparr>
               in case comma_toksuper cfg parser1 toks1 of
                    Fault \<Rightarrow> Fault
                  | Ok parser2 \<Rightarrow> Ok (Break count parser2 (Some toks1)))
            else Fault))"

text \<open>What follows a call of either scanner in \<^verbatim>\<open>jsmn_parse\<close>: the error is returned,
  or the token is counted, also in the \<open>size\<close> of \<open>toksuper\<close>.\<close>

definition after_scan :: "jsmnint_t \<Rightarrow> jsmn_ret exec option \<Rightarrow> flow exec option" where
  "after_scan count res =
     (case res of
        None \<Rightarrow> None
      | Some Fault \<Rightarrow> Some Fault
      | Some (Ok (r, parser, tokens)) \<Rightarrow>
          if r \<noteq> JSMN_SUCCESS then Some (Ok (Return r parser tokens))
          else
            (case tokens of
               None \<Rightarrow> Some (Ok (Break (count + 1) parser None))
             | Some toks \<Rightarrow>
                 if toksuper parser \<noteq> JSMN_NEG then
                   (if unat (toksuper parser) < length toks then
                      (let s = unat (toksuper parser) in
                       Some (Ok (Break (count + 1) parser
                         (Some (toks[s := (toks ! s)\<lparr>tok_size := tok_size (toks ! s) + 1\<rparr>])))))
                    else Some Fault)
                 else Some (Ok (Break (count + 1) parser tokens))))"

text \<open>The body of the scan loop: the \<^verbatim>\<open>switch (c)\<close>, its cases in the order of the
  source. The characters that start a primitive are listed in the strict build and are
  the \<^verbatim>\<open>default\<close> in the permissive one.\<close>

definition jsmn_parse_char ::
  "jsmn_config \<Rightarrow> string \<Rightarrow> nat \<Rightarrow> nat \<Rightarrow> jsmnint_t \<Rightarrow> jsmn_parser \<Rightarrow>
     jsmntok_t list option \<Rightarrow> flow exec option" where
  "jsmn_parse_char cfg js len num_tokens count parser tokens =
     (let c = js ! unat (pos parser) in
      if c = CHR ''{'' \<or> c = CHR ''['' then jsmn_open cfg c count parser tokens num_tokens
      else if c = CHR ''}'' \<or> c = CHR '']'' then jsmn_close cfg c count parser tokens
      else if c = CHR 0x22 then
        after_scan count (jsmn_parse_string cfg parser js len tokens num_tokens)
      else if c = CHR '' '' \<or> c = CHR 0x09 \<or> c = CHR 0x0A \<or> c = CHR 0x0D
      then Some (Ok (Break count parser tokens))
      else if c = CHR '':'' then Some (jsmn_colon cfg count parser tokens)
      else if c = CHR '','' then Some (jsmn_comma cfg count parser tokens)
      else if JSMN_PERMISSIVE cfg \<or> c \<in> set ''-0123456789tfn'' then
        after_scan count (jsmn_parse_primitive cfg parser js len tokens num_tokens)
      else Some (Ok (Return JSMN_ERROR_INVAL parser tokens)))"

text \<open>The scan loop \<^verbatim>\<open>for (; parser->pos < len && js[parser->pos] != '\0'; parser->pos++)\<close>.
  \<open>Break\<close> is the loop running to its end.\<close>

partial_function (option) jsmn_parse_loop ::
  "jsmn_config \<Rightarrow> string \<Rightarrow> nat \<Rightarrow> nat \<Rightarrow> jsmnint_t \<Rightarrow> jsmn_parser \<Rightarrow>
     jsmntok_t list option \<Rightarrow> flow exec option" where
  "jsmn_parse_loop cfg js len num_tokens count parser tokens =
     (if unat (pos parser) < len \<and> js ! unat (pos parser) \<noteq> CHR 0x00 then
        (case jsmn_parse_char cfg js len num_tokens count parser tokens of
           None \<Rightarrow> None
         | Some Fault \<Rightarrow> Some Fault
         | Some (Ok (Return r parser1 tokens1)) \<Rightarrow> Some (Ok (Return r parser1 tokens1))
         | Some (Ok (Break count1 parser1 tokens1)) \<Rightarrow>
             jsmn_parse_loop cfg js len num_tokens count1
               (parser1\<lparr>pos := pos parser1 + 1\<rparr>) tokens1)
      else Some (Ok (Break count parser tokens)))"

text \<open>\<^verbatim>\<open>jsmn_parse\<close>: the scan loop, then the search for a token left open.\<close>

definition jsmn_parse ::
  "jsmn_config \<Rightarrow> jsmn_parser \<Rightarrow> string \<Rightarrow> nat \<Rightarrow> jsmntok_t list option \<Rightarrow> nat \<Rightarrow>
     jsmn_ret exec option" where
  "jsmn_parse cfg parser js len tokens num_tokens =
     (case jsmn_parse_loop cfg js len num_tokens (toknext parser) parser tokens of
        None \<Rightarrow> None
      | Some Fault \<Rightarrow> Some Fault
      | Some (Ok (Return r parser1 tokens1)) \<Rightarrow> Some (Ok (r, parser1, tokens1))
      | Some (Ok (Break count parser1 tokens1)) \<Rightarrow>
          (case tokens1 of
             None \<Rightarrow> Some (Ok (count, parser1, None))
           | Some toks \<Rightarrow>
               (case find_open toks (unat (toknext parser1)) of
                  Fault \<Rightarrow> Some Fault
                | Ok (Some i) \<Rightarrow> Some (Ok (JSMN_ERROR_PART, parser1, tokens1))
                | Ok None \<Rightarrow> Some (Ok (count, parser1, tokens1)))))"

definition jsmn_init :: "jsmn_config \<Rightarrow> jsmn_parser" where
  "jsmn_init cfg =
     \<lparr>pos = 0, toknext = 0, toksuper = JSMN_NEG,
      expected = (if \<not> JSMN_PERMISSIVE cfg then JSMN_CONTAINER else JSMN_ANY_TYPE)\<rparr>"

subsection \<open>Reading the tokens\<close>

text \<open>The bytes of the buffer that a token spans, \<^verbatim>\<open>js[start .. end)\<close>.\<close>

definition tok_text :: "string \<Rightarrow> jsmntok_t \<Rightarrow> string" where
  "tok_text js token =
     take (unat (tok_end token) - unat (tok_start token)) (drop (unat (tok_start token)) js)"

text \<open>The strict builds, and the default build of the header: no switch defined.\<close>

definition strict_build :: "bool \<Rightarrow> bool \<Rightarrow> jsmn_config" where
  "strict_build parent_links next_sibling =
     \<lparr>JSMN_PERMISSIVE = False, JSMN_PARENT_LINKS = parent_links,
      JSMN_NEXT_SIBLING = next_sibling\<rparr>"

definition strict_config :: jsmn_config where
  "strict_config =
     \<lparr>JSMN_PERMISSIVE = False, JSMN_PARENT_LINKS = False, JSMN_NEXT_SIBLING = False\<rparr>"


subsection \<open>Bytes of the input\<close>

text \<open>In a primitive: a byte that the scanner steps over, and one that it rejects. In
  a string: a byte other than the quote, the backslash and the null byte, and a
  backslash at offset \<open>j\<close> that starts no legal escape.\<close>

definition prim_plain :: "jsmn_config \<Rightarrow> char \<Rightarrow> bool" where
  "prim_plain cfg c \<longleftrightarrow>
     c \<noteq> CHR 0x00 \<and> \<not> prim_terminator cfg c \<and> 32 \<le> (of_char c :: nat) \<and> (of_char c :: nat) < 127"

definition prim_illegal :: "jsmn_config \<Rightarrow> char \<Rightarrow> bool" where
  "prim_illegal cfg c \<longleftrightarrow>
     c \<noteq> CHR 0x00 \<and> \<not> prim_terminator cfg c \<and> ((of_char c :: nat) < 32 \<or> 127 \<le> (of_char c :: nat))"

definition bad_escape :: "string \<Rightarrow> nat \<Rightarrow> nat \<Rightarrow> bool" where
  "bad_escape js len j \<longleftrightarrow>
     js ! j = CHR 0x5C \<and> j + 1 < len \<and> \<not> escape_char (js ! (j + 1)) \<and>
     (js ! (j + 1) = CHR ''u'' \<longrightarrow> hex_scan 4 js len (of_nat (j + 2)) = None)"

definition str_plain :: "char \<Rightarrow> bool" where
  "str_plain c \<longleftrightarrow> c \<noteq> CHR 0x00 \<and> c \<noteq> CHR 0x22 \<and> c \<noteq> CHR 0x5C"


text \<open>A token whose fields are all zero, to fill a pool with.\<close>

definition zero_token :: jsmntok_t where
  "zero_token =
     \<lparr>tok_type = 0, tok_start = 0, tok_end = 0, tok_size = 0, tok_parent = 0,
      tok_next_sibling = 0\<rparr>"

subsection \<open>The states of the scan loop\<close>

definition flow_parser :: "flow \<Rightarrow> jsmn_parser" where
  "flow_parser fl = (case fl of Break c p t \<Rightarrow> p | Return r p t \<Rightarrow> p)"

text \<open>The condition of the scan loop.\<close>

definition scanning :: "string \<Rightarrow> nat \<Rightarrow> jsmn_parser \<Rightarrow> bool" where
  "scanning js len p \<longleftrightarrow> unat (pos p) < len \<and> js ! unat (pos p) \<noteq> CHR 0x00"

text \<open>The states (\<^verbatim>\<open>count\<close>, parser, pool) that the scan loop passes through at the
  head of an iteration, from a given one.\<close>

inductive reaches ::
  "jsmn_config \<Rightarrow> string \<Rightarrow> nat \<Rightarrow> nat \<Rightarrow>
   jsmnint_t \<times> jsmn_parser \<times> jsmntok_t list option \<Rightarrow>
   jsmnint_t \<times> jsmn_parser \<times> jsmntok_t list option \<Rightarrow> bool"
  for cfg :: jsmn_config and js :: string and len :: nat and num_tokens :: nat
  where
    reaches_here: "reaches cfg js len num_tokens s s"
  | reaches_step:
      "reaches cfg js len num_tokens s (count, p, t) \<Longrightarrow> scanning js len p \<Longrightarrow>
       jsmn_parse_char cfg js len num_tokens count p t = Some (Ok (Break count1 p1 t1)) \<Longrightarrow>
       reaches cfg js len num_tokens s (count1, p1\<lparr>pos := pos p1 + 1\<rparr>, t1)"


subsection \<open>The token tree\<close>

text \<open>The two fields of a token that describe the tree: \<open>parent\<close> and \<open>size\<close>.\<close>

definition links :: "jsmntok_t \<Rightarrow> jsmnint_t \<times> jsmnint_t" where
  "links t = (tok_parent t, tok_size t)"

text \<open>The \<open>parent\<close> field as a partial map on indices: \<^verbatim>\<open>JSMN_NEG\<close> is no parent.\<close>

definition parent_of :: "jsmntok_t list \<Rightarrow> nat \<Rightarrow> nat option" where
  "parent_of toks i =
     (if tok_parent (toks ! i) = JSMN_NEG then None else Some (unat (tok_parent (toks ! i))))"

text \<open>Following the \<open>parent\<close> field from token \<open>i\<close> to the first token whose
  \<open>parent\<close> is \<^verbatim>\<open>JSMN_NEG\<close>: the number of steps taken and the token reached. The second
  argument bounds the number of steps; \<open>None\<close> is the bound exceeded.\<close>

fun parent_steps :: "jsmntok_t list \<Rightarrow> nat \<Rightarrow> nat \<Rightarrow> (nat \<times> nat) option" where
  "parent_steps toks 0 i =
     (if tok_parent (toks ! i) = JSMN_NEG then Some (0, i) else None)"
| "parent_steps toks (Suc fuel) i =
     (if tok_parent (toks ! i) = JSMN_NEG then Some (0, i)
      else (case parent_steps toks fuel (unat (tok_parent (toks ! i))) of
              None \<Rightarrow> None
            | Some (d, r) \<Rightarrow> Some (Suc d, r)))"

text \<open>The \<open>size\<close> fields of the first \<open>n\<close> tokens.\<close>

definition sizes :: "jsmntok_t list \<Rightarrow> nat \<Rightarrow> nat list" where
  "sizes toks n = map (\<lambda>t. unat (tok_size t)) (take n toks)"

text \<open>The depth of every token in the tree that the \<open>size\<close> fields describe: the tokens
  are in document order, and a token of size \<open>k\<close> is followed by the subtrees of its
  \<open>k\<close> children. The first argument is the stack of the tokens still waiting for
  children, innermost first, each with the number of children it still waits for; a
  token's depth is the height of the stack once the entries that wait for nothing have
  been dropped from its top.\<close>

fun depths_from :: "nat list \<Rightarrow> nat list \<Rightarrow> nat list" where
  "depths_from st [] = []"
| "depths_from st (z # zs) =
     (let st' = dropWhile (\<lambda>c. c = 0) st
      in length st' #
         depths_from (z # (case st' of [] \<Rightarrow> [] | c # cs \<Rightarrow> (c - 1) # cs)) zs)"

definition tree_depths :: "jsmntok_t list \<Rightarrow> nat \<Rightarrow> nat list" where
  "tree_depths toks n = depths_from [] (sizes toks n)"

text \<open>The nesting depth of a token in the JSON text: the number of objects and arrays
  among the first \<open>n\<close> tokens, other than the token itself, whose span holds the span of
  the token.\<close>

definition encloses :: "jsmntok_t \<Rightarrow> jsmntok_t \<Rightarrow> bool" where
  "encloses c t \<longleftrightarrow>
     jsmn_is_type c JSMN_CONTAINER \<noteq> 0 \<and> unat (tok_start c) \<le> unat (tok_start t) \<and>
     unat (tok_end t) \<le> unat (tok_end c)"

definition nesting_depth :: "jsmntok_t list \<Rightarrow> nat \<Rightarrow> nat \<Rightarrow> nat" where
  "nesting_depth toks n i =
     length (filter (\<lambda>j. j \<noteq> i \<and> encloses (toks ! j) (toks ! i)) [0 ..< n])"

text \<open>The path from index \<open>k\<close> up a parent map \<open>P\<close>, \<open>k\<close> first. Only a parent below
  the index is followed.\<close>

function anc :: "(nat \<Rightarrow> nat option) \<Rightarrow> nat \<Rightarrow> nat list" where
  "anc P k = k # (case P k of None \<Rightarrow> [] | Some q \<Rightarrow> if q < k then anc P q else [])"
  by pat_completeness auto
termination
  by (relation "measure snd") auto

declare anc.simps [simp del]

text \<open>A parent map and a list of sizes that describe the same tree in document order:
  the parent of a token is on the path of the token before it, and the size of a token
  is the number of its children.\<close>

definition forest :: "(nat \<Rightarrow> nat option) \<Rightarrow> nat list \<Rightarrow> bool" where
  "forest P zs \<longleftrightarrow>
     (\<forall>i < length zs. \<forall>q. P i = Some q \<longrightarrow> q < i \<and> q \<in> set (anc P (i - 1))) \<and>
     (\<forall>j < length zs. zs ! j = card {i. i < length zs \<and> P i = Some j})"

text \<open>The children of \<open>j\<close> that come after index \<open>k\<close>, among the first \<open>n\<close> tokens.\<close>

definition fut :: "(nat \<Rightarrow> nat option) \<Rightarrow> nat \<Rightarrow> nat \<Rightarrow> nat \<Rightarrow> nat" where
  "fut P n k j = card {i. k < i \<and> i < n \<and> P i = Some j}"

text \<open>What holds of the parser and the pool at the head of every iteration of the scan
  loop, under \<^verbatim>\<open>JSMN_PARENT_LINKS\<close>: the tokens allocated so far form a tree, and
  \<open>toksuper\<close> is on the path of the last of them.\<close>

definition links_inv :: "jsmn_parser \<Rightarrow> jsmntok_t list \<Rightarrow> bool" where
  "links_inv p toks \<longleftrightarrow>
     unat (toknext p) \<le> length toks \<and>
     (toksuper p = JSMN_NEG \<or>
      (unat (toksuper p) < unat (toknext p) \<and>
       unat (toksuper p) \<in> set (anc (parent_of toks) (unat (toknext p) - 1)))) \<and>
     forest (parent_of toks) (sizes toks (unat (toknext p)))"

text \<open>What a new token \<open>n\<close> with parent \<open>s\<close> does to the links of the pool.\<close>

definition attach ::
  "(jsmnint_t \<times> jsmnint_t) list \<Rightarrow> nat \<Rightarrow> jsmnint_t \<Rightarrow> (jsmnint_t \<times> jsmnint_t) list" where
  "attach L n s =
     (if s = JSMN_NEG then L[n := (JSMN_NEG, 0)]
      else (L[n := (s, 0)])[unat s := (fst (L ! unat s), snd (L ! unat s) + 1)])"


section \<open>Evaluation\<close>

text \<open>The unfolding equations of the partial functions are their code equations.\<close>

declare sibling_loop.simps [code]
declare prim_scan.simps [code]
declare str_scan.simps [code]
declare close_loop.simps [code]
declare jsmn_parse_loop.simps [code]

lemmas jsmn_consts =
  JSMN_UNDEFINED_def JSMN_OBJECT_def JSMN_ARRAY_def JSMN_STRING_def JSMN_PRIMITIVE_def
  JSMN_KEY_def JSMN_VALUE_def JSMN_CLOSE_def JSMN_DELIMITER_def JSMN_CONTAINER_def
  JSMN_ANY_TYPE_def JSMN_SUCCESS_def JSMN_ERROR_NOMEM_def JSMN_ERROR_INVAL_def
  JSMN_ERROR_PART_def JSMN_NEG_def



text \<open>The recursions over \<open>Suc\<close>, unfolded at numerals.\<close>

lemma find_open_numeral:
  "find_open tokens (numeral k) =
     (if length tokens \<le> pred_numeral k then Fault
      else if tok_open (tokens ! pred_numeral k) then Ok (Some (pred_numeral k))
      else find_open tokens (pred_numeral k))"
  by (simp add: numeral_eq_Suc)

lemma find_open_container_numeral:
  "find_open_container tokens (numeral k) =
     (if length tokens \<le> pred_numeral k then Fault
      else if jsmn_is_type (tokens ! pred_numeral k) JSMN_CONTAINER \<noteq> 0 \<and>
              tok_open (tokens ! pred_numeral k)
      then Ok (Some (pred_numeral k))
      else find_open_container tokens (pred_numeral k))"
  by (simp add: numeral_eq_Suc)

lemma no_container_from_numeral:
  "no_container_from tokens (numeral k) =
     (if length tokens \<le> pred_numeral k then Fault
      else if jsmn_is_type (tokens ! pred_numeral k) JSMN_CONTAINER \<noteq> 0 then Ok False
      else no_container_from tokens (pred_numeral k))"
  by (simp add: numeral_eq_Suc)

lemma hex_scan_numeral:
  "hex_scan (numeral k) js len p =
     (if unat p < len \<and> js ! unat p \<noteq> CHR 0x00 then
        (if hex_digit (js ! unat p) then hex_scan (pred_numeral k) js len (p + 1) else None)
      else Some p)"
  by (simp add: numeral_eq_Suc)

lemmas jsmn_eval =
  jsmn_consts jsmn_is_type_def jsmn_is_expected_def tok_open_def jsmn_alloc_token_def
  jsmn_fill_token_def jsmn_next_sibling_def sibling_loop.simps toksuper_fix_def
  prim_terminator_def prim_scan.simps prim_found_def jsmn_parse_primitive_def
  hex_digit_def escape_char_def str_scan.simps str_found_def jsmn_parse_string_def
  close_loop.simps jsmn_open_def close_expected_def jsmn_close_def jsmn_colon_def
  comma_toksuper_def jsmn_comma_def after_scan_def jsmn_parse_char_def
  jsmn_parse_loop.simps jsmn_parse_def jsmn_init_def Let_def
  find_open_numeral find_open_container_numeral no_container_from_numeral hex_scan_numeral


lemma flow_parser_simps [simp]:
  "flow_parser (Break c p t) = p" "flow_parser (Return r p t) = p"
  by (simp_all add: flow_parser_def)

section \<open>Induction over the scan loop\<close>

text \<open>The rule for a run of the scan loop that returns: one case for each way an
  iteration ends.\<close>

lemma parse_loop_induct [consumes 1, case_names stop fault return step]:
  assumes run: "jsmn_parse_loop cfg js len n count p tokens = Some res"
    and stop: "\<And>count p tokens. \<not> scanning js len p \<Longrightarrow>
                 P count p tokens (Ok (Break count p tokens))"
    and fault: "\<And>count p tokens. scanning js len p \<Longrightarrow>
                 jsmn_parse_char cfg js len n count p tokens = Some Fault \<Longrightarrow>
                 P count p tokens Fault"
    and ret: "\<And>count p tokens r p1 t1. scanning js len p \<Longrightarrow>
                 jsmn_parse_char cfg js len n count p tokens = Some (Ok (Return r p1 t1)) \<Longrightarrow>
                 P count p tokens (Ok (Return r p1 t1))"
    and step: "\<And>count p tokens c1 p1 t1 res. scanning js len p \<Longrightarrow>
                 jsmn_parse_char cfg js len n count p tokens = Some (Ok (Break c1 p1 t1)) \<Longrightarrow>
                 jsmn_parse_loop cfg js len n c1 (p1\<lparr>pos := pos p1 + 1\<rparr>) t1 = Some res \<Longrightarrow>
                 P c1 (p1\<lparr>pos := pos p1 + 1\<rparr>) t1 res \<Longrightarrow>
                 P count p tokens res"
  shows "P count p tokens res"
proof -
  let ?Q = "\<lambda>cfg' js' len' n' count p tokens res.
      cfg' = cfg \<longrightarrow> js' = js \<longrightarrow> len' = len \<longrightarrow> n' = n \<longrightarrow>
      jsmn_parse_loop cfg js len n count p tokens = Some res \<and> P count p tokens res"
  have "?Q cfg js len n count p tokens res"
  proof (rule jsmn_parse_loop.raw_induct [where P = ?Q, OF _ run], intro impI, goal_cases)
    case (1 loop cfg' js' len' n' count p tokens res)
    note IH = 1(1) [rule_format] and unf = 1(2) [unfolded 1(3-6)]
    have IH': "loop cfg js len n c q t = Some r \<Longrightarrow>
               jsmn_parse_loop cfg js len n c q t = Some r \<and> P c q t r" for c q t r
      using IH [of cfg js len n c q t r] by simp
    show ?case
    proof (cases "scanning js len p")
      case False
      with unf have "res = Ok (Break count p tokens)"
        by (auto simp: scanning_def split: if_splits)
      with False stop show ?thesis
        by (auto simp: jsmn_parse_loop.simps [of cfg js len n count p tokens] scanning_def)
    next
      case True
      then have c: "unat (pos p) < len \<and> js ! unat (pos p) \<noteq> CHR 0x00"
        by (simp add: scanning_def)
      show ?thesis
      proof (cases "jsmn_parse_char cfg js len n count p tokens")
        case None
        with unf c show ?thesis by simp
      next
        case (Some e)
        show ?thesis
        proof (cases e)
          case Fault
          with Some unf c have "res = Fault" by simp
          with Fault Some c fault [OF True] show ?thesis
            by (simp add: jsmn_parse_loop.simps [of cfg js len n count p tokens])
        next
          case (Ok fl)
          show ?thesis
          proof (cases fl)
            case (Return r p1 t1)
            with Ok Some unf c have "res = Ok (Return r p1 t1)" by simp
            with Return Ok Some c ret [OF True] show ?thesis
              by (simp add: jsmn_parse_loop.simps [of cfg js len n count p tokens])
          next
            case (Break c1 p1 t1)
            with Ok Some unf c
            have "loop cfg js len n c1 (p1\<lparr>pos := pos p1 + 1\<rparr>) t1 = Some res" by simp
            from IH' [OF this] Break Ok Some c step [OF True] show ?thesis
              by (simp add: jsmn_parse_loop.simps [of cfg js len n count p tokens])
          qed
        qed
      qed
    qed
  qed
  then show ?thesis by simp
qed

section \<open>The expected mask\<close>








lemma close_expected_nonempty:
  "close_expected cfg count p toks = Ok fl \<Longrightarrow> expected (flow_parser fl) \<noteq> 0"
  by (auto simp: close_expected_def flow_parser_def Let_def jsmn_consts split: if_splits)

lemma close_expected:
  "jsmn_close cfg c count p tokens = Some (Ok fl) \<Longrightarrow> expected p \<noteq> 0 \<Longrightarrow>
   expected (flow_parser fl) \<noteq> 0"
  by (auto simp: jsmn_close_def Let_def dest: close_expected_nonempty
           split: option.splits exec.splits if_splits climb.splits)












section \<open>Parsing a small object\<close>

text \<open>
  Claim C1. In the strict dialect, \<^verbatim>\<open>jsmn_parse\<close> on a freshly initialised parser over
  \<^verbatim>\<open>{"a":1}\<close> with a pool of at least three tokens returns 3. The pool then holds
  three tokens and the rest of it is untouched: an object (with the value role) of size
  1, a string with the key role whose span is the byte \<^verbatim>\<open>a\<close>, and a primitive with the
  value role whose span is the byte \<^verbatim>\<open>1\<close>. This holds with and without parent and
  sibling links, and whatever the pool held before.
\<close>

theorem parse_object_a_1:
  assumes "\<not> JSMN_PERMISSIVE cfg" and "3 \<le> num_tokens" and "num_tokens \<le> length toks"
  shows "\<exists>parser' toks'.
           jsmn_parse cfg (jsmn_init cfg) ''{\"a\":1}'' 7 (Some toks) num_tokens =
             Some (Ok (3, parser', Some toks')) \<and>
           toknext parser' = 3 \<and> length toks' = length toks \<and> drop 3 toks' = drop 3 toks \<and>
           tok_type (toks' ! 0) = JSMN_OBJECT OR JSMN_VALUE \<and> tok_size (toks' ! 0) = 1 \<and>
           tok_type (toks' ! 1) = JSMN_STRING OR JSMN_KEY \<and>
           tok_text ''{\"a\":1}'' (toks' ! 1) = ''a'' \<and>
           tok_type (toks' ! 2) = JSMN_PRIMITIVE OR JSMN_VALUE \<and>
           tok_text ''{\"a\":1}'' (toks' ! 2) = ''1''"
proof -
  have len: "toks \<noteq> []" "0 < length toks" "Suc 0 < length toks" "2 < length toks"
       "\<not> num_tokens \<le> 2" "\<not> num_tokens \<le> Suc 0" "num_tokens \<noteq> 0"
    using assms by auto
  show ?thesis
    using assms(1) len
    by (cases "JSMN_PARENT_LINKS cfg"; cases "JSMN_NEXT_SIBLING cfg")
       (simp_all add: jsmn_eval tok_text_def)
qed

theorem parse_object_a_1_witness:
  "\<not> JSMN_PERMISSIVE strict_config \<and> (3::nat) \<le> 3 \<and>
   3 \<le> length [zero_token, zero_token, zero_token] \<and>
   (\<exists>parser' toks'.
      jsmn_parse strict_config (jsmn_init strict_config) ''{\"a\":1}'' 7
        (Some [zero_token, zero_token, zero_token]) 3 = Some (Ok (3, parser', Some toks')) \<and>
      toknext parser' = 3 \<and> length toks' = 3 \<and>
      tok_type (toks' ! 0) = JSMN_OBJECT OR JSMN_VALUE \<and> tok_size (toks' ! 0) = 1 \<and>
      tok_type (toks' ! 1) = JSMN_STRING OR JSMN_KEY \<and>
      tok_text ''{\"a\":1}'' (toks' ! 1) = ''a'' \<and>
      tok_type (toks' ! 2) = JSMN_PRIMITIVE OR JSMN_VALUE \<and>
      tok_text ''{\"a\":1}'' (toks' ! 2) = ''1'')"
proof -
  have h1: "\<not> JSMN_PERMISSIVE strict_config" by (simp add: strict_config_def)
  have h2: "(3::nat) \<le> 3" by simp
  have h3: "3 \<le> length [zero_token, zero_token, zero_token]" by simp
  from parse_object_a_1 [OF h1 h2 h3] h1 show ?thesis by auto
qed

section \<open>The dry run\<close>

text \<open>
  Claim C2 (the dry run returns the count of the real run; over \<^verbatim>\<open>{"a":1}\<close> it returns
  3). The code does not: the \<^verbatim>\<open>case ':'\<close> of \<^verbatim>\<open>jsmn_parse\<close> tests \<open>expected\<close> whether
  or not there is a token pool, and a dry run never updates \<open>expected\<close>. In either
  dialect, and with any \<^verbatim>\<open>num_tokens\<close>, the dry run over \<^verbatim>\<open>{"a":1}\<close> from a fresh parser
  stops at the colon, at offset 4, with \<^verbatim>\<open>JSMN_ERROR_INVAL\<close>.
\<close>

theorem dry_run_colon_inval:
  "jsmn_parse cfg (jsmn_init cfg) ''{\"a\":1}'' 7 None num_tokens =
     Some (Ok (JSMN_ERROR_INVAL, (jsmn_init cfg)\<lparr>pos := 4\<rparr>, None))"
  by (simp add: jsmn_eval)

section \<open>The empty input\<close>

text \<open>
  Claim C10. On a freshly initialised parser, an input of length 0, or one whose first
  byte is the null byte, makes \<^verbatim>\<open>jsmn_parse\<close> return 0, a success, in both dialects and
  with or without a token pool; the parser and the pool are unchanged.
\<close>

theorem empty_input_returns_0:
  assumes "len = 0 \<or> js ! 0 = CHR 0x00"
  shows "jsmn_parse cfg (jsmn_init cfg) js len tokens num_tokens =
           Some (Ok (0, jsmn_init cfg, tokens))"
  using assms
  by (auto simp add: jsmn_parse_def jsmn_parse_loop.simps jsmn_init_def split: option.splits)

theorem empty_input_returns_0_witness:
  "jsmn_parse strict_config (jsmn_init strict_config) [] 0 (Some [zero_token]) 1 =
     Some (Ok (0, jsmn_init strict_config, Some [zero_token])) \<and>
   jsmn_parse strict_config (jsmn_init strict_config) [CHR 0x00, CHR ''[''] 2 None 0 =
     Some (Ok (0, jsmn_init strict_config, None))"
proof -
  have h1: "(0::nat) = 0 \<or> [] ! 0 = CHR 0x00" by simp
  have h2: "(2::nat) = 0 \<or> [CHR 0x00, CHR ''[''] ! 0 = CHR 0x00" by simp
  from empty_input_returns_0 [OF h1] empty_input_returns_0 [OF h2] show ?thesis by simp
qed

section \<open>Runs of the scan loop\<close>

lemma reaches_first:
  assumes "reaches cfg js len n s1 s2"
  shows "\<And>count p t c1 p1 t1. scanning js len p \<Longrightarrow>
     jsmn_parse_char cfg js len n count p t = Some (Ok (Break c1 p1 t1)) \<Longrightarrow>
     s1 = (c1, p1\<lparr>pos := pos p1 + 1\<rparr>, t1) \<Longrightarrow> reaches cfg js len n (count, p, t) s2"
  using assms
proof (induction rule: reaches.induct)
  case (reaches_here s)
  then show ?case
    using reaches.reaches_step [OF reaches.reaches_here] by blast
next
  case (reaches_step s count p t count1 p1 t1)
  then show ?case
    using reaches.reaches_step by blast
qed


lemma loop_reaches:
  assumes "jsmn_parse_loop cfg js len n count p tokens = Some res"
  shows "(\<forall>c' p' t'. res = Ok (Break c' p' t') \<longrightarrow>
            reaches cfg js len n (count, p, tokens) (c', p', t') \<and> \<not> scanning js len p') \<and>
         (\<forall>r p' t'. res = Ok (Return r p' t') \<longrightarrow>
            (\<exists>c q tq. reaches cfg js len n (count, p, tokens) (c, q, tq) \<and> scanning js len q \<and>
               jsmn_parse_char cfg js len n c q tq = Some (Ok (Return r p' t')))) \<and>
         (res = Fault \<longrightarrow>
            (\<exists>c q tq. reaches cfg js len n (count, p, tokens) (c, q, tq) \<and> scanning js len q \<and>
               jsmn_parse_char cfg js len n c q tq = Some Fault))"
  using assms
proof (induction rule: parse_loop_induct)
  case (stop count p tokens)
  then show ?case by (auto intro: reaches.reaches_here)
next
  case (fault count p tokens)
  then show ?case by (auto intro: reaches.reaches_here)
next
  case (return count p tokens r p1 t1)
  then show ?case by (auto intro: reaches.reaches_here)
next
  case (step count p tokens c1 p1 t1 res)
  note f = reaches_first [OF _ step(1,2) refl]
  from step(4) f show ?case
    by blast
qed


section \<open>Capacity exhausted\<close>

lemma unat_neg1 [simp]: "unat (- 1 :: 32 word) = 4294967295"
  by (simp add: unsigned_minus_1_eq_mask mask_eq_exp_minus_1)

lemma err_neq [simp]:
  "JSMN_ERROR_INVAL \<noteq> JSMN_ERROR_NOMEM" "JSMN_ERROR_PART \<noteq> JSMN_ERROR_NOMEM"
  "JSMN_SUCCESS \<noteq> JSMN_ERROR_NOMEM" "JSMN_ERROR_INVAL \<noteq> JSMN_ERROR_PART"
  "JSMN_SUCCESS \<noteq> JSMN_ERROR_PART" "JSMN_SUCCESS \<noteq> JSMN_ERROR_INVAL"
  "JSMN_ERROR_NOMEM \<noteq> JSMN_ERROR_INVAL" "JSMN_ERROR_NOMEM \<noteq> JSMN_ERROR_PART"
  "JSMN_ERROR_NOMEM \<noteq> JSMN_SUCCESS" "JSMN_ERROR_PART \<noteq> JSMN_ERROR_INVAL"
  "JSMN_ERROR_PART \<noteq> JSMN_SUCCESS" "JSMN_ERROR_INVAL \<noteq> JSMN_SUCCESS"
  by (simp_all add: jsmn_consts)

lemma alloc_null:
  "jsmn_alloc_token cfg p toks n = Ok None \<longleftrightarrow> n \<le> unat (toknext p)"
  by (auto simp: jsmn_alloc_token_def Let_def)

lemma alloc_some:
  "jsmn_alloc_token cfg p toks n = Ok (Some (i, p', toks')) \<Longrightarrow>
   p' = p\<lparr>toknext := toknext p + 1\<rparr> \<and> i = unat (toknext p) \<and> i < n \<and> i < length toks \<and>
   length toks' = length toks"
  by (auto simp: jsmn_alloc_token_def Let_def split: if_splits)

lemma toksuper_fix_frame:
  "toksuper_fix cfg p tokens = Ok p' \<Longrightarrow>
   pos p' = pos p \<and> toknext p' = toknext p \<and> expected p' = expected p"
  by (auto simp: toksuper_fix_def split: option.splits if_splits)







lemma close_expected_no_return:
  "close_expected cfg count p toks \<noteq> Ok (Return r p' t')"
  by (auto simp: close_expected_def Let_def)




lemma after_scan_return:
  "after_scan count res = Some (Ok (Return r p' t')) \<longleftrightarrow>
   res = Some (Ok (r, p', t')) \<and> r \<noteq> JSMN_SUCCESS"
  by (auto simp: after_scan_def Let_def split: option.splits exec.splits if_splits)



section \<open>Counting the tokens\<close>

lemma next_sibling_length:
  "jsmn_next_sibling p toks = Some (Ok toks') \<Longrightarrow> length toks' = length toks"
  by (auto simp: jsmn_next_sibling_def Let_def split: option.splits exec.splits if_splits)

lemma prim_found_count:
  "prim_found cfg p (Some toks) n start = Some (Ok (JSMN_SUCCESS, p', t')) \<Longrightarrow>
   (\<exists>toks'. t' = Some toks' \<and> length toks' = length toks) \<and>
   toknext p' = toknext p + 1 \<and> unat (toknext p) < n"
  by (auto simp: prim_found_def Let_def
           dest!: alloc_some next_sibling_length
           split: option.splits exec.splits if_splits bool.splits)

lemma parse_primitive_count:
  "jsmn_parse_primitive cfg p js len (Some toks) n = Some (Ok (JSMN_SUCCESS, p', t')) \<Longrightarrow>
   (\<exists>toks'. t' = Some toks' \<and> length toks' = length toks) \<and>
   toknext p' = toknext p + 1 \<and> unat (toknext p) < n"
  by (auto simp: jsmn_parse_primitive_def Let_def
           dest!: toksuper_fix_frame prim_found_count
           split: option.splits exec.splits if_splits scan.splits)

lemma str_found_count:
  "str_found cfg p toks n start = Some (Ok (JSMN_SUCCESS, p', t')) \<Longrightarrow>
   (\<exists>toks'. t' = Some toks' \<and> length toks' = length toks) \<and>
   toknext p' = toknext p + 1 \<and> unat (toknext p) < n"
  by (auto simp: str_found_def Let_def
           dest!: alloc_some next_sibling_length
           split: option.splits exec.splits if_splits prod.splits)

lemma parse_string_count:
  "jsmn_parse_string cfg p js len (Some toks) n = Some (Ok (JSMN_SUCCESS, p', t')) \<Longrightarrow>
   (\<exists>toks'. t' = Some toks' \<and> length toks' = length toks) \<and>
   toknext p' = toknext p + 1 \<and> unat (toknext p) < n"
  by (auto simp: jsmn_parse_string_def Let_def
           dest!: toksuper_fix_frame str_found_count
           split: option.splits exec.splits if_splits scan.splits)

lemma after_scan_break:
  "after_scan count res = Some (Ok (Break c1 p1 t1)) \<Longrightarrow>
   \<exists>t. res = Some (Ok (JSMN_SUCCESS, p1, t)) \<and> c1 = count + 1 \<and>
       (t = None \<longrightarrow> t1 = None) \<and>
       (\<forall>toks. t = Some toks \<longrightarrow> (\<exists>toks1. t1 = Some toks1 \<and> length toks1 = length toks))"
  by (auto simp: after_scan_def Let_def split: option.splits exec.splits if_splits)

lemma open_count:
  "jsmn_open cfg c count p (Some toks) n = Some (Ok (Break c1 p1 t1)) \<Longrightarrow>
   (\<exists>toks1. t1 = Some toks1 \<and> length toks1 = length toks) \<and> c1 = count + 1 \<and>
   toknext p1 = toknext p + 1 \<and> unat (toknext p) < n"
  by (auto simp: jsmn_open_def Let_def
           dest!: alloc_some next_sibling_length
           split: option.splits exec.splits if_splits)

lemma close_expected_count:
  "close_expected cfg count p toks = Ok (Break c1 p1 t1) \<Longrightarrow>
   (\<exists>toks1. t1 = Some toks1 \<and> length toks1 = length toks) \<and> c1 = count \<and>
   toknext p1 = toknext p"
  by (auto simp: close_expected_def Let_def split: if_splits)

lemma close_count:
  "jsmn_close cfg c count p (Some toks) = Some (Ok (Break c1 p1 t1)) \<Longrightarrow>
   (\<exists>toks1. t1 = Some toks1 \<and> length toks1 = length toks) \<and> c1 = count \<and>
   toknext p1 = toknext p"
  by (auto simp: jsmn_close_def Let_def
           dest!: close_expected_count
           split: option.splits exec.splits if_splits climb.splits)

lemma colon_count:
  "jsmn_colon cfg count p (Some toks) = Ok (Break c1 p1 t1) \<Longrightarrow>
   (\<exists>toks1. t1 = Some toks1 \<and> length toks1 = length toks) \<and> c1 = count \<and>
   toknext p1 = toknext p"
  by (auto simp: jsmn_colon_def Let_def split: if_splits)

lemma comma_toksuper_frame:
  "comma_toksuper cfg p toks = Ok p' \<Longrightarrow>
   pos p' = pos p \<and> toknext p' = toknext p \<and> expected p' = expected p"
  by (auto simp: comma_toksuper_def split: option.splits exec.splits if_splits)

lemma comma_count:
  "jsmn_comma cfg count p (Some toks) = Ok (Break c1 p1 t1) \<Longrightarrow>
   (\<exists>toks1. t1 = Some toks1 \<and> length toks1 = length toks) \<and> c1 = count \<and>
   toknext p1 = toknext p"
  by (auto simp: jsmn_comma_def Let_def dest!: comma_toksuper_frame
           split: exec.splits if_splits)

lemma parse_char_count:
  assumes "jsmn_parse_char cfg js len n count p (Some toks) = Some (Ok (Break c1 p1 t1))"
  shows "(\<exists>toks1. t1 = Some toks1 \<and> length toks1 = length toks) \<and>
         ((c1 = count \<and> toknext p1 = toknext p) \<or>
          (c1 = count + 1 \<and> toknext p1 = toknext p + 1 \<and> unat (toknext p) < n))"
  using assms
  unfolding jsmn_parse_char_def Let_def
  by (auto dest!: open_count close_count colon_count comma_count after_scan_break
                  parse_string_count parse_primitive_count
           split: if_splits)






section \<open>What the scanners do on an input\<close>

lemma unat_plus1: "unat (s :: 32 word) + 1 < 2 ^ 32 \<Longrightarrow> unat (s + 1) = unat s + 1"
  by (simp add: unat_add_lem [THEN iffD1])

lemma prim_scan_illegal:
  assumes "unat s \<le> j" and "j < len" and "len \<le> 2 ^ 32"
    and "\<forall>i. unat s \<le> i \<and> i < j \<longrightarrow> prim_plain cfg (js ! i)"
    and "prim_illegal cfg (js ! j)"
  shows "prim_scan cfg js len s = Some Scan_Inval"
  using assms(1,4)
proof (induction "j - unat s" arbitrary: s)
  case 0
  then have "unat s = j" by simp
  with assms(2,5) show ?case
    by (subst prim_scan.simps) (auto simp: prim_illegal_def)
next
  case (Suc d)
  then have lt: "unat s < j" by simp
  with Suc(4) have pl: "prim_plain cfg (js ! unat s)" by simp
  from lt assms(2,3) have u: "unat (s + 1) = unat s + 1"
    by (intro unat_plus1) simp
  have "prim_scan cfg js len (s + 1) = Some Scan_Inval"
    using Suc(2) Suc(4) u lt by (intro Suc(1)) auto
  with pl lt assms(2) show ?case
    by (subst prim_scan.simps) (auto simp: prim_plain_def)
qed


lemma str_scan_bad_escape:
  assumes "unat s \<le> j" and "j < len" and "len \<le> 2 ^ 32 - 1"
    and "\<forall>i. unat s \<le> i \<and> i < j \<longrightarrow> str_plain (js ! i)"
    and "bad_escape js len j"
  shows "str_scan js len s = Some Scan_Inval"
  using assms(1,4)
proof (induction "j - unat s" arbitrary: s)
  case 0
  then have j: "unat s = j" by simp
  from assms(2,3) j have u: "unat (s + 1) = j + 1"
    using unat_plus1 [of s] by simp
  from assms(5) have jl: "j + 1 < len" by (simp add: bad_escape_def)
  with assms(3) have "unat (s + 1) + 1 < 2 ^ 32" using u by simp
  then have u2: "unat (s + 1 + 1) = j + 2" using unat_plus1 [of "s + 1"] u by simp
  have "of_nat (j + 2) = s + 1 + 1"
    unfolding u2 [symmetric] by simp
  with assms(2,5) j u show ?case
    by (subst str_scan.simps) (auto simp: bad_escape_def)
next
  case (Suc d)
  then have lt: "unat s < j" by simp
  with Suc(4) have pl: "str_plain (js ! unat s)" by simp
  from lt assms(2,3) have u: "unat (s + 1) = unat s + 1"
    by (intro unat_plus1) simp
  have "str_scan js len (s + 1) = Some Scan_Inval"
    using Suc(2) Suc(4) u lt by (intro Suc(1)) auto
  with pl lt assms(2) show ?case
    by (subst str_scan.simps) (auto simp: str_plain_def)
qed


section \<open>The comma in an object\<close>

text \<open>
  Claim C3 (after a comma in an object, \<open>expected\<close> is exactly \<^verbatim>\<open>JSMN_STRING\<close>). The
  code does not do so after a key/value pair: at the comma \<open>toksuper\<close> is still the key
  of the pair, not the object, so the test \<^verbatim>\<open>jsmn_is_type(&tokens[parser->toksuper],
  JSMN_OBJECT)\<close> fails and \<open>expected\<close> becomes \<^verbatim>\<open>JSMN_ANY_TYPE\<close>. In every strict
  build, after \<^verbatim>\<open>{"a":1,\<close> the parser has \<open>expected = JSMN_ANY_TYPE\<close>, and
  \<^verbatim>\<open>{"a":1,2}\<close> is accepted with 4 tokens.
\<close>

theorem comma_in_object_expects_any_type:
  "(\<exists>toks'.
      jsmn_parse (strict_build pl ns) (jsmn_init (strict_build pl ns)) ''{\"a\":1,'' 7
        (Some [zero_token, zero_token, zero_token, zero_token]) 4 =
      Some (Ok (JSMN_ERROR_PART,
        \<lparr>pos = 7, toknext = 3, toksuper = 0, expected = JSMN_ANY_TYPE\<rparr>, Some toks'))) \<and>
   JSMN_ANY_TYPE \<noteq> JSMN_STRING \<and>
   (\<exists>p' toks'.
      jsmn_parse (strict_build pl ns) (jsmn_init (strict_build pl ns)) ''{\"a\":1,2}'' 9
        (Some [zero_token, zero_token, zero_token, zero_token]) 4 =
      Some (Ok (4, p', Some toks')))"
  by (cases pl; cases ns)
     (simp_all add: jsmn_eval strict_build_def zero_token_def)

section \<open>Brackets in a dry run\<close>

text \<open>
  Claim C7 fails for the brackets: without a token pool \<^verbatim>\<open>[\<close> returns 1, \<^verbatim>\<open>[}\<close>
  returns 1 and \<^verbatim>\<open>]\<close> returns 0, where the run with a pool fails with
  \<^verbatim>\<open>JSMN_ERROR_PART\<close>, \<^verbatim>\<open>JSMN_ERROR_INVAL\<close> and \<^verbatim>\<open>JSMN_ERROR_INVAL\<close>.
\<close>

theorem dry_run_brackets_counterexample:
  "jsmn_parse strict_config (jsmn_init strict_config) ''['' 1 None 0 =
     Some (Ok (1, \<lparr>pos = 1, toknext = 0, toksuper = JSMN_NEG, expected = JSMN_CONTAINER\<rparr>, None)) \<and>
   jsmn_parse strict_config (jsmn_init strict_config) ''['' 1 (Some [zero_token]) 1 =
     Some (Ok (JSMN_ERROR_PART,
       \<lparr>pos = 1, toknext = 1, toksuper = 0, expected = JSMN_ANY_TYPE OR JSMN_CLOSE\<rparr>,
       Some [zero_token\<lparr>tok_type := JSMN_ARRAY OR JSMN_VALUE, tok_end := JSMN_NEG\<rparr>])) \<and>
   jsmn_parse strict_config (jsmn_init strict_config) ''[}'' 2 None 0 =
     Some (Ok (1, \<lparr>pos = 2, toknext = 0, toksuper = JSMN_NEG, expected = JSMN_CONTAINER\<rparr>, None)) \<and>
   jsmn_parse strict_config (jsmn_init strict_config) ''[}'' 2 (Some [zero_token]) 1 =
     Some (Ok (JSMN_ERROR_INVAL,
       \<lparr>pos = 1, toknext = 1, toksuper = 0, expected = JSMN_ANY_TYPE OR JSMN_CLOSE\<rparr>,
       Some [zero_token\<lparr>tok_type := JSMN_ARRAY OR JSMN_VALUE, tok_end := JSMN_NEG\<rparr>])) \<and>
   jsmn_parse strict_config (jsmn_init strict_config) '']'' 1 None 0 =
     Some (Ok (0, \<lparr>pos = 1, toknext = 0, toksuper = JSMN_NEG, expected = JSMN_CONTAINER\<rparr>, None)) \<and>
   jsmn_parse strict_config (jsmn_init strict_config) '']'' 1 (Some [zero_token]) 1 =
     Some (Ok (JSMN_ERROR_INVAL, jsmn_init strict_config, Some [zero_token])) \<and>
   (1 :: jsmnint_t) \<noteq> JSMN_ERROR_PART \<and> (1 :: jsmnint_t) \<noteq> JSMN_ERROR_INVAL \<and>
   (0 :: jsmnint_t) \<noteq> JSMN_ERROR_INVAL"
  by (simp add: jsmn_eval strict_config_def zero_token_def)

section \<open>Truncated input\<close>


lemma find_open_none:
  "find_open toks k = Ok None \<Longrightarrow> i < k \<Longrightarrow> \<not> tok_open (toks ! i)"
proof (induction k)
  case 0
  then show ?case by simp
next
  case (Suc k)
  then show ?case by (cases "i = k") (auto split: if_splits)
qed








section \<open>What a dry run checks\<close>

lemma parse_primitive_illegal:
  assumes "tokens = None \<or> \<not> (JSMN_PERMISSIVE cfg \<and> JSMN_PARENT_LINKS cfg)"
    and "unat (pos p) \<le> j" and "j < len" and "len \<le> 2 ^ 32"
    and "\<forall>i. unat (pos p) \<le> i \<and> i < j \<longrightarrow> prim_plain cfg (js ! i)"
    and "prim_illegal cfg (js ! j)"
  shows "jsmn_parse_primitive cfg p js len tokens n = Some (Ok (JSMN_ERROR_INVAL, p, tokens))"
proof -
  from assms(1) have f: "toksuper_fix cfg p tokens = Ok p"
    by (auto simp: toksuper_fix_def split: option.splits)
  have s: "prim_scan cfg js len (pos p) = Some Scan_Inval"
    using assms(2-6) by (rule prim_scan_illegal)
  have "p\<lparr>pos := pos p\<rparr> = p" by simp
  with f s show ?thesis
    by (simp add: jsmn_parse_primitive_def Let_def)
qed

lemma parse_string_bad_escape:
  assumes "tokens = None \<or> \<not> (JSMN_PERMISSIVE cfg \<and> JSMN_PARENT_LINKS cfg)"
    and "unat (pos p) < j" and "j < len" and "len \<le> 2 ^ 32 - 1"
    and "\<forall>i. unat (pos p) < i \<and> i < j \<longrightarrow> str_plain (js ! i)"
    and "bad_escape js len j"
  shows "jsmn_parse_string cfg p js len tokens n = Some (Ok (JSMN_ERROR_INVAL, p, tokens))"
proof -
  from assms(1) have f: "toksuper_fix cfg p tokens = Ok p"
    by (auto simp: toksuper_fix_def split: option.splits)
  from assms(2-4) have u: "unat (pos p + 1) = unat (pos p) + 1"
    by (intro unat_plus1) simp
  have s: "str_scan js len (pos p + 1) = Some Scan_Inval"
    using assms(2-6) u by (intro str_scan_bad_escape [of _ j]) auto
  have "p\<lparr>pos := pos p\<rparr> = p" by simp
  with f s show ?thesis
    by (simp add: jsmn_parse_string_def Let_def)
qed

lemma dry_open:
  "js ! unat (pos p) = CHR ''{'' \<or> js ! unat (pos p) = CHR ''['' \<Longrightarrow>
   jsmn_parse_char cfg js len n count p None = Some (Ok (Break (count + 1) p None))"
  by (auto simp: jsmn_parse_char_def jsmn_open_def)

lemma dry_close:
  "js ! unat (pos p) = CHR ''}'' \<or> js ! unat (pos p) = CHR '']'' \<Longrightarrow>
   jsmn_parse_char cfg js len n count p None = Some (Ok (Break count p None))"
  by (auto simp: jsmn_parse_char_def jsmn_close_def)

lemma parse_primitive_dry:
  "jsmn_parse_primitive cfg p js len None n = Some (Ok (r, p', t')) \<Longrightarrow> t' = None"
  by (auto simp: jsmn_parse_primitive_def prim_found_def Let_def toksuper_fix_def
           split: option.splits exec.splits if_splits scan.splits)

lemma parse_string_dry:
  "jsmn_parse_string cfg p js len None n = Some (Ok (r, p', t')) \<Longrightarrow> t' = None"
  by (auto simp: jsmn_parse_string_def Let_def toksuper_fix_def
           split: option.splits exec.splits if_splits scan.splits)

lemma parse_char_dry:
  assumes "jsmn_parse_char cfg js len n count p None = Some (Ok (Break c1 p1 t1))"
  shows "t1 = None"
  using assms
  unfolding jsmn_parse_char_def Let_def
  by (auto simp: jsmn_open_def jsmn_close_def jsmn_colon_def jsmn_comma_def
           dest!: after_scan_break parse_primitive_dry parse_string_dry
           split: if_splits)

lemma parse_loop_dry:
  assumes "jsmn_parse_loop cfg js len n count p tokens = Some res"
  shows "tokens = None \<longrightarrow> (\<forall>c' p' t'. res = Ok (Break c' p' t') \<longrightarrow> t' = None)"
  using assms
proof (induction rule: parse_loop_induct)
  case (stop count p tokens)
  then show ?case by simp
next
  case (fault count p tokens)
  then show ?case by simp
next
  case (return count p tokens r p1 t1)
  then show ?case by simp
next
  case (step count p tokens c1 p1 t1 res)
  then show ?case using parse_char_dry by blast
qed

lemma dry_end:
  assumes "jsmn_parse_loop cfg js len n (toknext p) p None = Some (Ok (Break count p' t'))"
  shows "jsmn_parse cfg p js len None n = Some (Ok (count, p', None))"
proof -
  from parse_loop_dry [OF assms] have "t' = None" by simp
  with assms show ?thesis by (simp add: jsmn_parse_def)
qed

text \<open>
  Claim C7, as amended. A dry run still makes the checks on single characters, with the
  result of a real run: a primitive with a byte outside 32..126 before its terminator,
  and a string with a backslash that starts no legal escape, fail with
  \<^verbatim>\<open>JSMN_ERROR_INVAL\<close> and leave the parser as it was. It matches no brackets: an
  opening bracket is only counted, a closing bracket is skipped, and at the end of the
  input the count is returned without a search for open containers.
\<close>

theorem dry_run_checks:
  "(\<forall>p js len tokens n j.
      (tokens = None \<or> \<not> (JSMN_PERMISSIVE cfg \<and> JSMN_PARENT_LINKS cfg)) \<and>
      unat (pos p) \<le> j \<and> j < len \<and> len \<le> 2 ^ 32 \<and>
      (\<forall>i. unat (pos p) \<le> i \<and> i < j \<longrightarrow> prim_plain cfg (js ! i)) \<and>
      prim_illegal cfg (js ! j) \<longrightarrow>
      jsmn_parse_primitive cfg p js len tokens n = Some (Ok (JSMN_ERROR_INVAL, p, tokens))) \<and>
   (\<forall>p js len tokens n j.
      (tokens = None \<or> \<not> (JSMN_PERMISSIVE cfg \<and> JSMN_PARENT_LINKS cfg)) \<and>
      unat (pos p) < j \<and> j < len \<and> len \<le> 2 ^ 32 - 1 \<and>
      (\<forall>i. unat (pos p) < i \<and> i < j \<longrightarrow> str_plain (js ! i)) \<and>
      bad_escape js len j \<longrightarrow>
      jsmn_parse_string cfg p js len tokens n = Some (Ok (JSMN_ERROR_INVAL, p, tokens))) \<and>
   (\<forall>js len n count p.
      js ! unat (pos p) = CHR ''{'' \<or> js ! unat (pos p) = CHR ''['' \<longrightarrow>
      jsmn_parse_char cfg js len n count p None = Some (Ok (Break (count + 1) p None))) \<and>
   (\<forall>js len n count p.
      js ! unat (pos p) = CHR ''}'' \<or> js ! unat (pos p) = CHR '']'' \<longrightarrow>
      jsmn_parse_char cfg js len n count p None = Some (Ok (Break count p None))) \<and>
   (\<forall>js len n p count p' t'.
      jsmn_parse_loop cfg js len n (toknext p) p None = Some (Ok (Break count p' t')) \<longrightarrow>
      jsmn_parse cfg p js len None n = Some (Ok (count, p', None)))"
proof -
  have a: "(tokens = None \<or> \<not> (JSMN_PERMISSIVE cfg \<and> JSMN_PARENT_LINKS cfg)) \<and>
      unat (pos p) \<le> j \<and> j < len \<and> len \<le> 2 ^ 32 \<and>
      (\<forall>i. unat (pos p) \<le> i \<and> i < j \<longrightarrow> prim_plain cfg (js ! i)) \<and>
      prim_illegal cfg (js ! j) \<longrightarrow>
      jsmn_parse_primitive cfg p js len tokens n = Some (Ok (JSMN_ERROR_INVAL, p, tokens))"
    for p js len tokens n j
    using parse_primitive_illegal [of tokens cfg p j len js n] by blast
  have b: "(tokens = None \<or> \<not> (JSMN_PERMISSIVE cfg \<and> JSMN_PARENT_LINKS cfg)) \<and>
      unat (pos p) < j \<and> j < len \<and> len \<le> 2 ^ 32 - 1 \<and>
      (\<forall>i. unat (pos p) < i \<and> i < j \<longrightarrow> str_plain (js ! i)) \<and>
      bad_escape js len j \<longrightarrow>
      jsmn_parse_string cfg p js len tokens n = Some (Ok (JSMN_ERROR_INVAL, p, tokens))"
    for p js len tokens n j
    using parse_string_bad_escape [of tokens cfg p j len js n] by blast
  have c: "js ! unat (pos p) = CHR ''{'' \<or> js ! unat (pos p) = CHR ''['' \<longrightarrow>
      jsmn_parse_char cfg js len n count p None = Some (Ok (Break (count + 1) p None))"
    for js len n count p
    using dry_open by blast
  have d: "js ! unat (pos p) = CHR ''}'' \<or> js ! unat (pos p) = CHR '']'' \<longrightarrow>
      jsmn_parse_char cfg js len n count p None = Some (Ok (Break count p None))"
    for js len n count p
    using dry_close by blast
  have e: "jsmn_parse_loop cfg js len n (toknext p) p None = Some (Ok (Break count p' t')) \<longrightarrow>
      jsmn_parse cfg p js len None n = Some (Ok (count, p', None))"
    for js len n p count p' t'
    using dry_end by blast
  from a b c d e show ?thesis
    by (intro conjI allI) assumption+
qed

theorem dry_run_checks_witness:
  "jsmn_parse_primitive strict_config \<lparr>pos = 1, toknext = 0, toksuper = JSMN_NEG, expected = 3\<rparr>
       [CHR ''['', CHR ''1'', CHR 0x01, CHR '']''] 4 None 0 =
     Some (Ok (JSMN_ERROR_INVAL, \<lparr>pos = 1, toknext = 0, toksuper = JSMN_NEG, expected = 3\<rparr>,
       None)) \<and>
   jsmn_parse_string strict_config \<lparr>pos = 1, toknext = 0, toksuper = JSMN_NEG, expected = 3\<rparr>
       [CHR ''['', CHR 0x22, CHR 0x5C, CHR ''q'', CHR 0x22, CHR '']''] 6 None 0 =
     Some (Ok (JSMN_ERROR_INVAL, \<lparr>pos = 1, toknext = 0, toksuper = JSMN_NEG, expected = 3\<rparr>,
       None)) \<and>
   jsmn_parse_char strict_config ''['' 1 0 0 (jsmn_init strict_config) None =
     Some (Ok (Break 1 (jsmn_init strict_config) None)) \<and>
   jsmn_parse_char strict_config '']'' 1 0 0 (jsmn_init strict_config) None =
     Some (Ok (Break 0 (jsmn_init strict_config) None)) \<and>
   jsmn_parse strict_config (jsmn_init strict_config) ''['' 1 None 0 =
     Some (Ok (1, (jsmn_init strict_config)\<lparr>pos := 1\<rparr>, None))"
proof -
  let ?p = "\<lparr>pos = 1, toknext = 0, toksuper = JSMN_NEG, expected = 3\<rparr>"
  let ?j1 = "[CHR ''['', CHR ''1'', CHR 0x01, CHR '']'']"
  let ?j2 = "[CHR ''['', CHR 0x22, CHR 0x5C, CHR ''q'', CHR 0x22, CHR '']'']"
  note T = dry_run_checks [of strict_config]
  note T1 = T [THEN conjunct1, rule_format]
  note T2 = T [THEN conjunct2, THEN conjunct1, rule_format]
  note T3 = T [THEN conjunct2, THEN conjunct2, THEN conjunct1, rule_format]
  note T4 = T [THEN conjunct2, THEN conjunct2, THEN conjunct2, THEN conjunct1, rule_format]
  note T5 = T [THEN conjunct2, THEN conjunct2, THEN conjunct2, THEN conjunct2, rule_format]
  have h1: "(None = (None :: jsmntok_t list option) \<or>
        \<not> (JSMN_PERMISSIVE strict_config \<and> JSMN_PARENT_LINKS strict_config)) \<and>
      unat (pos ?p) \<le> 2 \<and> (2::nat) < 4 \<and> (4::nat) \<le> 2 ^ 32 \<and>
      (\<forall>i. unat (pos ?p) \<le> i \<and> i < 2 \<longrightarrow> prim_plain strict_config (?j1 ! i)) \<and>
      prim_illegal strict_config (?j1 ! 2)"
    by (auto simp: prim_plain_def prim_illegal_def prim_terminator_def strict_config_def
          nth_Cons' )
  from T1 [OF h1] have A: "jsmn_parse_primitive strict_config ?p ?j1 4 None 0 =
      Some (Ok (JSMN_ERROR_INVAL, ?p, None))" .
  have h2: "(None = (None :: jsmntok_t list option) \<or>
        \<not> (JSMN_PERMISSIVE strict_config \<and> JSMN_PARENT_LINKS strict_config)) \<and>
      unat (pos ?p) < 2 \<and> (2::nat) < 6 \<and> (6::nat) \<le> 2 ^ 32 - 1 \<and>
      (\<forall>i. unat (pos ?p) < i \<and> i < 2 \<longrightarrow> str_plain (?j2 ! i)) \<and>
      bad_escape ?j2 6 2"
    by (auto simp: str_plain_def bad_escape_def escape_char_def)
  from T2 [OF h2] have B: "jsmn_parse_string strict_config ?p ?j2 6 None 0 =
      Some (Ok (JSMN_ERROR_INVAL, ?p, None))" .
  have h3: "''['' ! unat (pos (jsmn_init strict_config)) = CHR ''{'' \<or>
            ''['' ! unat (pos (jsmn_init strict_config)) = CHR ''[''"
    by (simp add: jsmn_init_def)
  from T3 [OF h3] have C: "jsmn_parse_char strict_config ''['' 1 0 0 (jsmn_init strict_config) None =
      Some (Ok (Break (0 + 1) (jsmn_init strict_config) None))" .
  have h4: "'']'' ! unat (pos (jsmn_init strict_config)) = CHR ''}'' \<or>
            '']'' ! unat (pos (jsmn_init strict_config)) = CHR '']''"
    by (simp add: jsmn_init_def)
  from T4 [OF h4] have D: "jsmn_parse_char strict_config '']'' 1 0 0 (jsmn_init strict_config) None =
      Some (Ok (Break 0 (jsmn_init strict_config) None))" .
  have h5: "jsmn_parse_loop strict_config ''['' 1 0 (toknext (jsmn_init strict_config))
      (jsmn_init strict_config) None =
      Some (Ok (Break 1 ((jsmn_init strict_config)\<lparr>pos := 1\<rparr>) None))"
    by (simp add: jsmn_eval strict_config_def)
  from T5 [OF h5] have E: "jsmn_parse strict_config (jsmn_init strict_config) ''['' 1 None 0 =
      Some (Ok (1, (jsmn_init strict_config)\<lparr>pos := 1\<rparr>, None))" .
  from A B C D E show ?thesis by simp
qed

section \<open>Resuming a parse\<close>















lemma prim_found_code:
  "prim_found cfg p tokens n start = Some (Ok (r, p', t')) \<Longrightarrow>
   r = JSMN_SUCCESS \<or> r = JSMN_ERROR_NOMEM"
  by (auto simp: prim_found_def Let_def alloc_null
           split: option.splits exec.splits if_splits bool.splits)


lemma str_found_code:
  "str_found cfg p toks n start = Some (Ok (r, p', t')) \<Longrightarrow>
   r = JSMN_SUCCESS \<or> r = JSMN_ERROR_NOMEM"
  by (auto simp: str_found_def Let_def alloc_null
           split: option.splits exec.splits if_splits prod.splits)


lemma open_code:
  "jsmn_open cfg c count p tokens n = Some (Ok (Return r p' t')) \<Longrightarrow>
   r = JSMN_ERROR_NOMEM \<or> r = JSMN_ERROR_INVAL"
  by (auto simp: jsmn_open_def Let_def alloc_null
           split: option.splits exec.splits if_splits)

lemma close_code:
  "jsmn_close cfg c count p tokens = Some (Ok (Return r p' t')) \<Longrightarrow> r = JSMN_ERROR_INVAL"
  by (auto simp: jsmn_close_def Let_def close_expected_no_return
           split: option.splits exec.splits if_splits climb.splits)

lemma colon_code:
  "jsmn_colon cfg count p tokens = Ok (Return r p' t') \<Longrightarrow> r = JSMN_ERROR_INVAL"
  by (auto simp: jsmn_colon_def Let_def split: option.splits if_splits)

lemma comma_code:
  "jsmn_comma cfg count p tokens = Ok (Return r p' t') \<Longrightarrow> r = JSMN_ERROR_INVAL"
  by (auto simp: jsmn_comma_def Let_def split: option.splits exec.splits if_splits)


lemma reaches_count_eq:
  assumes "reaches cfg js len n s (count, p, t)" and "s = (toknext p0, p0, Some toks)"
  shows "count = toknext p \<and> (\<exists>toks'. t = Some toks')"
  using assms
proof (induction s "(count, p, t)" arbitrary: count p t rule: reaches.induct)
  case reaches_here
  then show ?case by simp
next
  case (reaches_step s count p t count1 p1 t1)
  from reaches_step(2) [OF reaches_step(5)] obtain toks' where
    c: "count = toknext p" and t: "t = Some toks'"
    by blast
  from parse_char_count [OF reaches_step(4) [unfolded t]] c show ?case
    by auto
qed







section \<open>Parent links\<close>

subsection \<open>Paths and depths in a tree given by parents and sizes\<close>

lemma anc_None: "P k = None \<Longrightarrow> anc P k = [k]"
  by (subst anc.simps) simp

lemma anc_Some: "P k = Some q \<Longrightarrow> q < k \<Longrightarrow> anc P k = k # anc P q"
  by (subst anc.simps) simp

lemma anc_bad: "P k = Some q \<Longrightarrow> \<not> q < k \<Longrightarrow> anc P k = [k]"
  by (subst anc.simps) simp

lemma anc_cases:
  obtains (root) "anc P k = [k]" | (up) q where "P k = Some q" "q < k" "anc P k = k # anc P q"
proof (cases "P k")
  case None
  then show ?thesis using anc_None root by blast
next
  case (Some q)
  then show ?thesis
    using anc_Some [of P k q] anc_bad [of P k q] root up by (cases "q < k") blast+
qed

lemma anc_le: "a \<in> set (anc P k) \<Longrightarrow> a \<le> k"
proof (induction k arbitrary: a rule: less_induct)
  case (less k)
  show ?case
  proof (cases P k rule: anc_cases)
    case root
    with less.prems show ?thesis by simp
  next
    case (up q)
    with less.prems less.IH [OF up(2), of a] show ?thesis by auto
  qed
qed

lemma anc_suffix:
  "a \<in> set (anc P k) \<Longrightarrow> \<exists>pre. anc P k = pre @ anc P a \<and> (\<forall>b \<in> set pre. a < b)"
proof (induction k rule: less_induct)
  case (less k)
  show ?case
  proof (cases "a = k")
    case True
    then show ?thesis by (intro exI [of _ "[]"]) simp
  next
    case False
    show ?thesis
    proof (cases P k rule: anc_cases)
      case root
      with less.prems False show ?thesis by simp
    next
      case (up q)
      with less.prems False have m: "a \<in> set (anc P q)" by simp
      from less.IH [OF up(2) m] obtain pre where
        pre: "anc P q = pre @ anc P a" "\<forall>b \<in> set pre. a < b" by blast
      from anc_le [OF m] up(2) have "a < k" by simp
      with pre up show ?thesis
        by (intro exI [of _ "k # pre"]) simp
    qed
  qed
qed

lemma anc_self: "k \<in> set (anc P k)"
  by (cases P k rule: anc_cases) simp_all


lemma anc_below:
  assumes "forest P zs" and "k \<le> m" and "m < length zs" and "a \<in> set (anc P m)" and "a \<le> k"
  shows "a \<in> set (anc P k)"
  using assms(2-5)
proof (induction m)
  case 0
  then show ?case by simp
next
  case (Suc m)
  show ?case
  proof (cases "k = Suc m")
    case True
    with Suc.prems show ?thesis by simp
  next
    case False
    with Suc.prems have km: "k \<le> m" by simp
    show ?thesis
    proof (cases P "Suc m" rule: anc_cases)
      case root
      with Suc.prems km show ?thesis by simp
    next
      case (up q)
      with Suc.prems km have aq: "a \<in> set (anc P q)" by auto
      from assms(1) up(1) Suc.prems(2) have "q \<in> set (anc P m)"
        by (auto simp: forest_def)
      from anc_suffix [OF this] aq have "a \<in> set (anc P m)" by auto
      with Suc.IH km Suc.prems show ?thesis by simp
    qed
  qed
qed

lemma fut_zero:
  assumes f: "forest P zs" and k: "Suc k < length zs"
    and a: "a \<in> set (anc P k)"
    and na: "\<forall>q. P (Suc k) = Some q \<longrightarrow> q < a"
  shows "fut P (length zs) k a = 0"
proof -
  have "{i. k < i \<and> i < length zs \<and> P i = Some a} = {}"
  proof (rule ccontr)
    assume "{i. k < i \<and> i < length zs \<and> P i = Some a} \<noteq> {}"
    then obtain i where i: "k < i" "i < length zs" "P i = Some a" by blast
    from anc_le [OF a] have ak: "a \<le> k" .
    show False
    proof (cases "i = Suc k")
      case True
      with i na show False by auto
    next
      case False
      with i have ki: "Suc k \<le> i - 1" "i - 1 < length zs" by simp_all
      from f i have "a \<in> set (anc P (i - 1))" by (auto simp: forest_def)
      from anc_below [OF f ki this] ak have m: "a \<in> set (anc P (Suc k))" by simp
      show False
      proof (cases P "Suc k" rule: anc_cases)
        case root
        with m ak show False by simp
      next
        case (up q)
        with m ak have "a \<in> set (anc P q)" by auto
        from anc_le [OF this] na up(1) show False by auto
      qed
    qed
  qed
  then show ?thesis by (simp add: fut_def)
qed

lemma fut_self:
  assumes f: "forest P zs" and k: "k < length zs"
  shows "fut P (length zs) k k = zs ! k"
proof -
  from f have "\<And>i. i < length zs \<Longrightarrow> P i = Some k \<Longrightarrow> k < i"
    by (auto simp: forest_def)
  then have "{i. k < i \<and> i < length zs \<and> P i = Some k} = {i. i < length zs \<and> P i = Some k}"
    by auto
  with f k show ?thesis by (simp add: fut_def forest_def)
qed

lemma fut_step:
  assumes "Suc k < n"
  shows "fut P n (Suc k) a = (if P (Suc k) = Some a then fut P n k a - 1 else fut P n k a)"
proof -
  have fin: "finite {i. Suc k < i \<and> i < n \<and> P i = Some a}" by simp
  show ?thesis
  proof (cases "P (Suc k) = Some a")
    case True
    with assms have "{i. k < i \<and> i < n \<and> P i = Some a} =
        insert (Suc k) {i. Suc k < i \<and> i < n \<and> P i = Some a}"
      by (auto simp: Suc_lessI)
    with fin True show ?thesis by (simp add: fut_def)
  next
    case False
    then have "{i. k < i \<and> i < n \<and> P i = Some a} = {i. Suc k < i \<and> i < n \<and> P i = Some a}"
      by (auto simp: Suc_lessI) (metis Suc_lessI)
    with False show ?thesis by (simp add: fut_def)
  qed
qed

lemma fut_pos:
  assumes "Suc k < n" and "P (Suc k) = Some a"
  shows "0 < fut P n k a"
proof -
  have "finite {i. k < i \<and> i < n \<and> P i = Some a}" by simp
  moreover from assms have "Suc k \<in> {i. k < i \<and> i < n \<and> P i = Some a}" by simp
  ultimately show ?thesis
    unfolding fut_def by (metis card_gt_0_iff empty_iff)
qed


lemma decoder_step:
  assumes f: "forest P zs" and k: "Suc k < length zs"
  shows "dropWhile (\<lambda>c. c = 0) (map (fut P (length zs) k) (anc P k)) =
           (case P (Suc k) of None \<Rightarrow> [] | Some q \<Rightarrow> map (fut P (length zs) k) (anc P q))"
proof (cases "P (Suc k)")
  case None
  then have "\<forall>a \<in> set (anc P k). fut P (length zs) k a = 0"
    using fut_zero [OF f k] by simp
  then have "dropWhile (\<lambda>c. c = 0) (map (fut P (length zs) k) (anc P k)) = []"
    by (simp add: dropWhile_eq_Nil_conv)
  with None show ?thesis by simp
next
  case (Some q)
  with f k have q: "q \<in> set (anc P k)" by (auto simp: forest_def)
  from anc_suffix [OF q] obtain pre where
    pre: "anc P k = pre @ anc P q" "\<forall>b \<in> set pre. q < b" by blast
  have z: "\<forall>a \<in> set pre. fut P (length zs) k a = 0"
  proof
    fix a assume a: "a \<in> set pre"
    with pre have "a \<in> set (anc P k)" "q < a" by simp_all
    with fut_zero [OF f k, of a] Some show "fut P (length zs) k a = 0" by simp
  qed
  obtain r where r: "anc P q = q # r"
    by (cases P q rule: anc_cases) simp_all
  from fut_pos [of k "length zs" P q] k Some have "fut P (length zs) k q \<noteq> 0" by simp
  then have h: "dropWhile (\<lambda>c. c = 0) (map (fut P (length zs) k) (anc P q)) =
      map (fut P (length zs) k) (anc P q)"
    using r by simp
  have "dropWhile (\<lambda>c. c = 0)
          (map (fut P (length zs) k) pre @ map (fut P (length zs) k) (anc P q)) =
        dropWhile (\<lambda>c. c = 0) (map (fut P (length zs) k) (anc P q))"
    by (rule dropWhile_append2) (use z in auto)
  with h pre have "dropWhile (\<lambda>c. c = 0) (map (fut P (length zs) k) (anc P k)) =
      map (fut P (length zs) k) (anc P q)"
    by simp
  with Some show ?thesis by simp
qed

lemma decoder_stack:
  assumes f: "forest P zs" and k: "Suc k < length zs"
  shows "zs ! Suc k #
           (case (case P (Suc k) of None \<Rightarrow> []
                  | Some q \<Rightarrow> map (fut P (length zs) k) (anc P q)) of
              [] \<Rightarrow> [] | c # cs \<Rightarrow> (c - 1) # cs) =
         map (fut P (length zs) (Suc k)) (anc P (Suc k))"
proof (cases "P (Suc k)")
  case None
  with fut_self [OF f k] show ?thesis by (simp add: anc_None)
next
  case (Some q)
  with f k have qk: "q < Suc k" by (auto simp: forest_def)
  obtain r where r: "anc P q = q # r"
    by (cases P q rule: anc_cases) simp_all
  have "\<forall>a \<in> set r. a \<noteq> q"
  proof
    fix a assume "a \<in> set r"
    with r show "a \<noteq> q"
    proof (cases P q rule: anc_cases)
      case root
      with r \<open>a \<in> set r\<close> show ?thesis by simp
    next
      case (up q')
      with r \<open>a \<in> set r\<close> have "a \<in> set (anc P q')" by simp
      from anc_le [OF this] up(2) show ?thesis by simp
    qed
  qed
  then have "map (fut P (length zs) (Suc k)) r = map (fut P (length zs) k) r"
    using Some by (auto simp: fut_step [OF k])
  with Some qk r fut_self [OF f k] show ?thesis
    by (simp add: anc_Some fut_step [OF k])
qed

lemma decoder_from:
  assumes f: "forest P zs" and k: "k < length zs"
  shows "depths_from (map (fut P (length zs) k) (anc P k)) (drop (Suc k) zs) =
         map (\<lambda>i. length (anc P i) - 1) [Suc k ..< length zs]"
  using k
proof (induction "length zs - Suc k" arbitrary: k)
  case 0
  then show ?case by simp
next
  case (Suc d)
  then have k: "Suc k < length zs" by simp
  from Suc(2) have d: "d = length zs - Suc (Suc k)" by simp
  have dr: "drop (Suc k) zs = zs ! Suc k # drop (Suc (Suc k)) zs"
    using k by (simp add: Cons_nth_drop_Suc)
  have up: "[Suc k ..< length zs] = Suc k # [Suc (Suc k) ..< length zs]"
    using k by (simp add: upt_conv_Cons)
  have len: "length (dropWhile (\<lambda>c. c = 0) (map (fut P (length zs) k) (anc P k))) =
             length (anc P (Suc k)) - 1"
  proof (cases "P (Suc k)")
    case None
    then show ?thesis by (simp add: decoder_step [OF f k] anc_None)
  next
    case (Some q)
    with f k have "q < Suc k" by (auto simp: forest_def)
    with Some show ?thesis by (simp add: decoder_step [OF f k] anc_Some)
  qed
  from Suc(1) [OF d k] len show ?case
    by (simp add: dr up Let_def decoder_step [OF f k] decoder_stack [OF f k])
qed

lemma decoder_depths:
  assumes f: "forest P zs"
  shows "depths_from [] zs = map (\<lambda>i. length (anc P i) - 1) [0 ..< length zs]"
proof (cases zs)
  case Nil
  then show ?thesis by simp
next
  case (Cons z zs')
  then have l: "0 < length zs" by simp
  from f l have p0: "P 0 = None" by (force simp: forest_def)
  then have a0: "anc P 0 = [0]" by (rule anc_None)
  from fut_self [OF f l] Cons have "fut P (length zs) 0 0 = z" by simp
  with decoder_from [OF f l] a0 Cons
  have "depths_from [z] zs' = map (\<lambda>i. length (anc P i) - 1) [Suc 0 ..< length zs]"
    by simp
  moreover have "[0 ..< length zs] = 0 # [Suc 0 ..< length zs]"
    using l by (simp add: upt_conv_Cons)
  ultimately show ?thesis using Cons a0 by simp
qed


subsection \<open>The tree that the parser builds\<close>

lemma anc_cong:
  "(\<And>i. i \<le> k \<Longrightarrow> P i = Q i) \<Longrightarrow> anc P k = anc Q k"
proof (induction k rule: less_induct)
  case (less k)
  show ?case
  proof (cases "P k")
    case None
    with less.prems [of k] show ?thesis by (simp add: anc_None)
  next
    case (Some q)
    show ?thesis
    proof (cases "q < k")
      case True
      with Some less.prems [of k] less.IH [OF True] less.prems show ?thesis
        by (simp add: anc_Some)
    next
      case False
      with Some less.prems [of k] show ?thesis by (simp add: anc_bad)
    qed
  qed
qed

lemma parent_of_links:
  "i < length toks \<Longrightarrow> i < length toks' \<Longrightarrow> map links toks' ! i = map links toks ! i \<Longrightarrow>
   parent_of toks' i = parent_of toks i"
  by (simp add: parent_of_def links_def)

lemma links_inv_move:
  assumes inv: "links_inv p toks"
    and l: "map links toks1 = map links toks"
    and n: "toknext p1 = toknext p"
    and s: "toksuper p1 = toksuper p \<or> toksuper p1 = toknext p - 1 \<or>
            (\<exists>j \<in> set (anc (parent_of toks) (unat (toknext p) - 1)).
               j < unat (toknext p) \<and> toksuper p1 = tok_parent (toks ! j))"
  shows "links_inv p1 toks1"
proof -
  let ?n = "unat (toknext p)"
  let ?P = "parent_of toks"
  from l have len: "length toks1 = length toks" by (metis length_map)
  from inv have nl: "?n \<le> length toks" by (simp add: links_inv_def)
  have P: "parent_of toks1 i = ?P i" if "i < length toks" for i
    using that l len by (intro parent_of_links) simp_all
  have sz: "sizes toks1 k = sizes toks k" for k
  proof -
    from l have "map snd (map links toks1) = map snd (map links toks)" by simp
    then have "map tok_size toks1 = map tok_size toks" by (simp add: links_def comp_def)
    then have "map unat (take k (map tok_size toks1)) = map unat (take k (map tok_size toks))"
      by simp
    then show ?thesis by (simp add: sizes_def take_map comp_def)
  qed
  have A: "anc (parent_of toks1) k = anc ?P k" if "k < length toks" for k
    using that by (intro anc_cong P) simp
  from inv have f: "forest ?P (sizes toks ?n)" by (simp add: links_inv_def)
  have ln: "length (sizes toks ?n) = ?n" using nl by (simp add: sizes_def)
  have f1: "forest (parent_of toks1) (sizes toks1 ?n)"
    unfolding forest_def sz ln
  proof (intro conjI allI impI)
    fix i q assume i: "i < ?n" and q: "parent_of toks1 i = Some q"
    with P [of i] nl have "?P i = Some q" by simp
    with f i ln have "q < i" "q \<in> set (anc ?P (i - 1))" by (auto simp: forest_def)
    with A [of "i - 1"] i nl show "q < i" "q \<in> set (anc (parent_of toks1) (i - 1))" by simp_all
  next
    fix j assume j: "j < ?n"
    have "{i. i < ?n \<and> parent_of toks1 i = Some j} = {i. i < ?n \<and> ?P i = Some j}"
      using P nl by auto
    with f j ln show "sizes toks ?n ! j = card {i. i < ?n \<and> parent_of toks1 i = Some j}"
      by (simp add: forest_def)
  qed
  have s1: "toksuper p1 = JSMN_NEG \<or>
      (unat (toksuper p1) < ?n \<and> unat (toksuper p1) \<in> set (anc ?P (?n - 1)))"
  proof -
    consider (same) "toksuper p1 = toksuper p" | (last) "toksuper p1 = toknext p - 1"
      | (up) j where "j \<in> set (anc ?P (?n - 1))" "j < ?n" "toksuper p1 = tok_parent (toks ! j)"
      using s by blast
    then show ?thesis
    proof cases
      case same
      with inv show ?thesis by (simp add: links_inv_def)
    next
      case last
      show ?thesis
      proof (cases "toknext p = 0")
        case True
        with last show ?thesis by (simp add: JSMN_NEG_def)
      next
        case False
        then have "unat (toknext p - 1) = ?n - 1"
          by (simp add: unat_minus_one)
        moreover from False have "0 < ?n" by (simp add: unat_gt_0)
        ultimately show ?thesis using last anc_self [of "?n - 1" ?P] by simp
      qed
    next
      case (up j)
      show ?thesis
      proof (cases "tok_parent (toks ! j) = JSMN_NEG")
        case True
        with up show ?thesis by simp
      next
        case False
        then have pj: "?P j = Some (unat (toksuper p1))"
          using up by (simp add: parent_of_def)
        with f up(2) ln have lt: "unat (toksuper p1) < j" by (auto simp: forest_def)
        from anc_suffix [OF up(1)] obtain pre where
          "anc ?P (?n - 1) = pre @ anc ?P j" by blast
        moreover from pj lt have "anc ?P j = j # anc ?P (unat (toksuper p1))"
          by (rule anc_Some)
        ultimately have "unat (toksuper p1) \<in> set (anc ?P (?n - 1))"
          using anc_self [of "unat (toksuper p1)" ?P] by simp
        with lt up(2) show ?thesis by simp
      qed
    qed
  qed
  have "?n - 1 < length toks \<or> ?n = 0" using nl by auto
  with s1 A [of "?n - 1"] have "toksuper p1 = JSMN_NEG \<or>
      (unat (toksuper p1) < ?n \<and> unat (toksuper p1) \<in> set (anc (parent_of toks1) (?n - 1)))"
    by auto
  with f1 nl len n show ?thesis by (simp add: links_inv_def)
qed


lemma card_insert_new:
  "{i. i < Suc n \<and> Q i} = (if Q n then insert n {i. i < n \<and> Q i} else {i. i < n \<and> Q i})"
  by (auto simp: less_Suc_eq)

lemma links_inv_attach:
  assumes inv: "links_inv p toks"
    and lt: "unat (toknext p) < length toks"
    and bound: "length toks < 2 ^ 32"
    and n: "toknext p1 = toknext p + 1"
    and l: "map links toks1 = attach (map links toks) (unat (toknext p)) (toksuper p)"
    and s: "toksuper p1 = toksuper p \<or> toksuper p1 = toknext p"
  shows "links_inv p1 toks1"
proof -
  let ?n = "unat (toknext p)"
  let ?P = "parent_of toks"
  let ?Q = "parent_of toks1"
  let ?s = "toksuper p"
  from l have len: "length toks1 = length toks"
    by (metis (no_types) attach_def length_list_update length_map)
  from inv have f: "forest ?P (sizes toks ?n)" by (simp add: links_inv_def)
  have ln: "length (sizes toks ?n) = ?n" using lt by (simp add: sizes_def)
  from inv have sup: "?s = JSMN_NEG \<or> (unat ?s < ?n \<and> unat ?s \<in> set (anc ?P (?n - 1)))"
    by (simp add: links_inv_def)
  have n1: "unat (toknext p1) = Suc ?n"
    using n lt bound by (simp add: unat_plus1)
  have fstl: "map fst (map links toks1) = (map fst (map links toks))[?n := ?s]"
    unfolding l attach_def using sup lt
    by (auto simp: map_update list_update_same_conv JSMN_NEG_def)
  then have par: "map tok_parent toks1 = (map tok_parent toks)[?n := ?s]"
    by (simp add: links_def comp_def)
  have tp: "tok_parent (toks1 ! i) = (if i = ?n then ?s else tok_parent (toks ! i))"
    if "i < length toks" for i
  proof -
    from that len have "tok_parent (toks1 ! i) = map tok_parent toks1 ! i" by simp
    also have "\<dots> = (if i = ?n then ?s else tok_parent (toks ! i))"
      unfolding par using that by (simp add: nth_list_update)
    finally show ?thesis .
  qed
  have Qn: "?Q ?n = (if ?s = JSMN_NEG then None else Some (unat ?s))"
    using tp [of ?n] lt by (simp add: parent_of_def)
  have Q: "?Q i = ?P i" if "i < ?n" for i
    using tp [of i] that lt by (simp add: parent_of_def)
  have A: "anc ?Q k = anc ?P k" if "k < ?n" for k
    using that by (intro anc_cong Q) simp
  have sndl: "map snd (map links toks1) =
      (if ?s = JSMN_NEG then (map tok_size toks)[?n := 0]
       else ((map tok_size toks)[?n := 0])[unat ?s := tok_size (toks ! unat ?s) + 1])"
    unfolding l attach_def using sup lt
    by (auto simp: map_update links_def comp_def)
  then have szs: "map tok_size toks1 =
      (if ?s = JSMN_NEG then (map tok_size toks)[?n := 0]
       else ((map tok_size toks)[?n := 0])[unat ?s := tok_size (toks ! unat ?s) + 1])"
    by (simp add: links_def comp_def)
  have ts: "tok_size (toks1 ! i) =
      (if ?s \<noteq> JSMN_NEG \<and> i = unat ?s then tok_size (toks ! i) + 1
       else if i = ?n then 0 else tok_size (toks ! i))"
    if "i < length toks" for i
  proof -
    from that len have "tok_size (toks1 ! i) = map tok_size toks1 ! i" by simp
    also have "\<dots> = (if ?s \<noteq> JSMN_NEG \<and> i = unat ?s then tok_size (toks ! i) + 1
       else if i = ?n then 0 else tok_size (toks ! i))"
      unfolding szs using that by (simp add: nth_list_update)
    finally show ?thesis .
  qed
  have old: "unat (tok_size (toks ! j)) = card {i. i < ?n \<and> ?P i = Some j}" if "j < ?n" for j
    using f that ln lt by (simp add: forest_def sizes_def)
  have cardle: "card {i. i < ?n \<and> ?P i = Some j} \<le> ?n" for j
  proof -
    have "card {i. i < ?n \<and> ?P i = Some j} \<le> card {..<?n}"
      by (rule card_mono) auto
    then show ?thesis by simp
  qed
  have f1: "forest ?Q (sizes toks1 (Suc ?n))"
    unfolding forest_def
  proof (intro conjI allI impI)
    fix i q assume i: "i < length (sizes toks1 (Suc ?n))" and q: "?Q i = Some q"
    from i have i': "i < Suc ?n" by (simp add: sizes_def)
    have "q < i \<and> q \<in> set (anc ?Q (i - 1))"
    proof (cases "i = ?n")
      case True
      with q Qn sup have "q = unat ?s" "unat ?s < ?n" "unat ?s \<in> set (anc ?P (?n - 1))"
        by (auto split: if_splits)
      moreover from this A [of "?n - 1"] have "anc ?Q (?n - 1) = anc ?P (?n - 1)" by simp
      ultimately show ?thesis using True by simp
    next
      case False
      with i' have il: "i < ?n" by simp
      with q Q have "?P i = Some q" by simp
      with f il ln have "q < i" "q \<in> set (anc ?P (i - 1))" by (auto simp: forest_def)
      with A [of "i - 1"] il show ?thesis by simp
    qed
    then show "q < i" "q \<in> set (anc ?Q (i - 1))" by simp_all
  next
    fix j assume "j < length (sizes toks1 (Suc ?n))"
    then have j: "j < Suc ?n" by (simp add: sizes_def)
    have nth: "sizes toks1 (Suc ?n) ! j = unat (tok_size (toks1 ! j))"
      using j lt len by (simp add: sizes_def)
    have lens: "length (sizes toks1 (Suc ?n)) = Suc ?n"
      using lt len by (simp add: sizes_def)
    have set_eq: "{i. i < Suc ?n \<and> ?Q i = Some j} =
        (if ?Q ?n = Some j then insert ?n {i. i < ?n \<and> ?P i = Some j}
         else {i. i < ?n \<and> ?P i = Some j})"
      unfolding card_insert_new using Q by auto
    have fin: "finite {i. i < ?n \<and> ?P i = Some j}" by simp
    have notin: "?n \<notin> {i. i < ?n \<and> ?P i = Some j}" by simp
    show "sizes toks1 (Suc ?n) ! j =
        card {i. i < length (sizes toks1 (Suc ?n)) \<and> ?Q i = Some j}"
      unfolding nth lens set_eq
    proof (cases "j = ?n")
      case True
      have "?Q ?n \<noteq> Some ?n" using Qn sup by (auto split: if_splits)
      moreover have "{i. i < ?n \<and> ?P i = Some ?n} = {}"
        using f ln by (auto simp: forest_def)
      moreover have "tok_size (toks1 ! ?n) = 0" using ts [of ?n] lt sup by auto
      ultimately show "unat (tok_size (toks1 ! j)) =
        card (if ?Q ?n = Some j then insert ?n {i. i < ?n \<and> ?P i = Some j}
         else {i. i < ?n \<and> ?P i = Some j})" using True by simp
    next
      case False
      with j have jl: "j < ?n" by simp
      show "unat (tok_size (toks1 ! j)) =
        card (if ?Q ?n = Some j then insert ?n {i. i < ?n \<and> ?P i = Some j}
         else {i. i < ?n \<and> ?P i = Some j})"
      proof (cases "?s \<noteq> JSMN_NEG \<and> j = unat ?s")
        case True
        then have "?Q ?n = Some j" using Qn by simp
        moreover have "tok_size (toks1 ! j) = tok_size (toks ! j) + 1"
          using ts [of j] jl lt True by simp
        moreover have "unat (tok_size (toks ! j) + 1) = Suc (unat (tok_size (toks ! j)))"
          using old [OF jl] cardle [of j] lt bound by (simp add: unat_plus1)
        ultimately show ?thesis using old [OF jl] by simp
      next
        case F: False
        then have "?Q ?n \<noteq> Some j" using Qn jl sup
          by (auto split: if_splits)
        moreover have "tok_size (toks1 ! j) = tok_size (toks ! j)"
          using ts [of j] jl lt F False by auto
        ultimately show ?thesis using old [OF jl] by simp
      qed
    qed
  qed
  have s1: "toksuper p1 = JSMN_NEG \<or>
      (unat (toksuper p1) < Suc ?n \<and> unat (toksuper p1) \<in> set (anc ?Q ?n))"
  proof -
    from s show ?thesis
    proof
      assume e: "toksuper p1 = ?s"
      show ?thesis
      proof (cases "?s = JSMN_NEG")
        case True with e show ?thesis by simp
      next
        case False
        with sup have "unat ?s < ?n" by simp
        with Qn False have "anc ?Q ?n = ?n # anc ?Q (unat ?s)" by (simp add: anc_Some)
        with anc_self [of "unat ?s" ?Q] e \<open>unat ?s < ?n\<close> show ?thesis by simp
      qed
    next
      assume "toksuper p1 = toknext p"
      with anc_self [of ?n ?Q] show ?thesis by simp
    qed
  qed
  from f1 s1 n1 lt len show ?thesis by (simp add: links_inv_def)
qed


subsection \<open>What each case of the switch does to the links\<close>

lemma links_simps [simp]:
  "links (t\<lparr>tok_type := a\<rparr>) = links t"
  "links (t\<lparr>tok_start := a\<rparr>) = links t"
  "links (t\<lparr>tok_end := a\<rparr>) = links t"
  "links (t\<lparr>tok_next_sibling := a\<rparr>) = links t"
  "links (t\<lparr>tok_parent := a\<rparr>) = (a, tok_size t)"
  "links (t\<lparr>tok_size := b\<rparr>) = (tok_parent t, b)"
  "links (jsmn_fill_token t ty st en) = (tok_parent t, 0)"
  "fst (links t) = tok_parent t"
  "snd (links t) = tok_size t"
  by (simp_all add: links_def jsmn_fill_token_def)

lemma fill_token_simps [simp]:
  "tok_size (jsmn_fill_token t ty st en) = 0"
  "tok_parent (jsmn_fill_token t ty st en) = tok_parent t"
  by (simp_all add: jsmn_fill_token_def)

lemma map_update_same [simp]: "(map f xs)[k := f (xs ! k)] = map f xs"
  by (cases "k < length xs") (simp_all add: list_update_same_conv list_update_beyond not_less)

lemma alloc_links:
  "jsmn_alloc_token cfg p toks n = Ok (Some (i, p', toks')) \<Longrightarrow> JSMN_PARENT_LINKS cfg \<Longrightarrow>
   p' = p\<lparr>toknext := toknext p + 1\<rparr> \<and> i = unat (toknext p) \<and> i < length toks \<and>
   length toks' = length toks \<and>
   map links toks' = (map links toks)[unat (toknext p) := (JSMN_NEG, 0)]"
  by (auto simp: jsmn_alloc_token_def Let_def map_update split: if_splits)

lemma next_sibling_links:
  "jsmn_next_sibling p toks = Some (Ok toks') \<Longrightarrow> map links toks' = map links toks"
  by (auto simp: jsmn_next_sibling_def Let_def map_update
           split: option.splits exec.splits if_splits)

lemma toksuper_fix_links:
  "toksuper_fix cfg p (Some toks) = Ok p1 \<Longrightarrow>
   toknext p1 = toknext p \<and>
   (toksuper p1 = toksuper p \<or>
    (unat (toksuper p) < length toks \<and> toksuper p1 = tok_parent (toks ! unat (toksuper p))))"
  by (auto simp: toksuper_fix_def split: if_splits)

lemma prim_found_links:
  assumes "prim_found cfg p (Some toks) n start = Some (Ok (JSMN_SUCCESS, p', Some toks'))"
    and "JSMN_PARENT_LINKS cfg"
  shows "unat (toknext p) < length toks \<and> toknext p' = toknext p + 1 \<and>
         toksuper p' = toksuper p \<and>
         map links toks' = (map links toks)[unat (toknext p) := (toksuper p, 0)]"
  using assms
  by (auto simp: prim_found_def Let_def map_update
           dest!: alloc_links next_sibling_links
           split: option.splits exec.splits if_splits bool.splits)

lemma str_found_links:
  assumes "str_found cfg p toks n start = Some (Ok (JSMN_SUCCESS, p', Some toks'))"
    and "JSMN_PARENT_LINKS cfg"
  shows "unat (toknext p) < length toks \<and> toknext p' = toknext p + 1 \<and>
         toksuper p' = toksuper p \<and>
         map links toks' = (map links toks)[unat (toknext p) := (toksuper p, 0)]"
  using assms
  by (auto simp: str_found_def Let_def map_update
           dest!: alloc_links next_sibling_links
           split: option.splits exec.splits if_splits prod.splits)


lemma links_inv_cong:
  "links_inv p toks \<Longrightarrow> toknext p1 = toknext p \<Longrightarrow> toksuper p1 = toksuper p \<Longrightarrow>
   links_inv p1 toks"
  by (simp add: links_inv_def)

lemma links_inv_up:
  assumes inv: "links_inv p toks" and bound: "length toks < 2 ^ 32"
    and n: "toknext p1 = toknext p"
    and s: "toksuper p1 = toksuper p \<or>
       (unat (toksuper p) < length toks \<and> toksuper p1 = tok_parent (toks ! unat (toksuper p)))"
  shows "links_inv p1 toks"
proof -
  from s show ?thesis
  proof
    assume "toksuper p1 = toksuper p"
    with inv n show ?thesis by (rule links_inv_cong)
  next
    assume a: "unat (toksuper p) < length toks \<and>
      toksuper p1 = tok_parent (toks ! unat (toksuper p))"
    with bound have "toksuper p \<noteq> JSMN_NEG" by (auto simp: JSMN_NEG_def)
    with inv have "unat (toksuper p) < unat (toknext p)"
      "unat (toksuper p) \<in> set (anc (parent_of toks) (unat (toknext p) - 1))"
      by (simp_all add: links_inv_def)
    with a show ?thesis
      by (intro links_inv_move [OF inv refl n]) blast
  qed
qed

lemma scan_links:
  assumes inv: "links_inv pf toks" and bound: "length toks < 2 ^ 32"
    and eff: "unat (toknext pf) < length toks \<and> toknext p1 = toknext pf + 1 \<and>
         toksuper p1 = toksuper pf \<and>
         map links toks' = (map links toks)[unat (toknext pf) := (toksuper pf, 0)]"
    and as: "after_scan count (Some (Ok (JSMN_SUCCESS, p1, Some toks'))) =
         Some (Ok (Break c1 p2 (Some toks1)))"
  shows "links_inv p2 toks1"
proof -
  let ?n = "unat (toknext pf)"
  let ?s = "toksuper pf"
  let ?L = "map links toks"
  from eff have lt: "?n < length toks" and n1: "toknext p1 = toknext pf + 1"
    and s1: "toksuper p1 = ?s" and l: "map links toks' = ?L[?n := (?s, 0)]"
    by simp_all
  from l have len: "length toks' = length toks" by (metis length_list_update length_map)
  from inv have sn: "?s = JSMN_NEG \<or> unat ?s < ?n" by (auto simp: links_inv_def)
  from as s1 have p2: "p2 = p1"
    and t1: "toks1 = (if ?s \<noteq> JSMN_NEG
        then toks'[unat ?s := (toks' ! unat ?s)\<lparr>tok_size := tok_size (toks' ! unat ?s) + 1\<rparr>]
        else toks')"
    by (auto simp: after_scan_def Let_def split: if_splits)
  have att: "map links toks1 = attach ?L ?n ?s"
  proof (cases "?s = JSMN_NEG")
    case True
    with t1 l show ?thesis by (simp add: attach_def)
  next
    case False
    with sn have lt': "unat ?s < ?n" by simp
    with lt len have "links (toks' ! unat ?s) = map links toks' ! unat ?s" by simp
    also have "\<dots> = ?L ! unat ?s" unfolding l using lt' by simp
    also have "\<dots> = links (toks ! unat ?s)" using lt' lt by simp
    finally have e: "tok_parent (toks' ! unat ?s) = tok_parent (toks ! unat ?s)"
      "tok_size (toks' ! unat ?s) = tok_size (toks ! unat ?s)"
      by (simp_all add: links_def)
    from False t1 have "map links toks1 =
      (map links toks')[unat ?s := (tok_parent (toks' ! unat ?s), tok_size (toks' ! unat ?s) + 1)]"
      by (simp add: map_update)
    with e l False lt lt' show ?thesis by (simp add: attach_def)
  qed
  show ?thesis
    unfolding p2 by (rule links_inv_attach [OF inv lt bound n1 att]) (simp add: s1)
qed

lemma after_primitive_links:
  assumes run: "after_scan count (jsmn_parse_primitive cfg p js len (Some toks) n) =
      Some (Ok (Break c1 p2 (Some toks1)))"
    and pl: "JSMN_PARENT_LINKS cfg"
    and inv: "links_inv p toks" and bound: "length toks < 2 ^ 32"
  shows "links_inv p2 toks1"
proof -
  from after_scan_break [OF run] obtain t p1 where
    res: "jsmn_parse_primitive cfg p js len (Some toks) n = Some (Ok (JSMN_SUCCESS, p1, t))"
    by blast
  from parse_primitive_count [OF res] obtain toks' where t: "t = Some toks'" by blast
  from res obtain pf e where
    fx: "toksuper_fix cfg p (Some toks) = Ok pf" and
    fo: "prim_found cfg (pf\<lparr>pos := e\<rparr>) (Some toks) n (pos pf) =
           Some (Ok (JSMN_SUCCESS, p1, t))"
    by (auto simp: jsmn_parse_primitive_def Let_def
             split: option.splits exec.splits if_splits scan.splits)
  from toksuper_fix_links [OF fx] have "links_inv pf toks"
    by (intro links_inv_up [OF inv bound]) simp_all
  then have i2: "links_inv (pf\<lparr>pos := e\<rparr>) toks" by (rule links_inv_cong) simp_all
  from run res t have
    "after_scan count (Some (Ok (JSMN_SUCCESS, p1, Some toks'))) =
       Some (Ok (Break c1 p2 (Some toks1)))"
    by simp
  with i2 bound prim_found_links [OF fo [unfolded t] pl] show ?thesis
    by (rule scan_links)
qed

lemma after_string_links:
  assumes run: "after_scan count (jsmn_parse_string cfg p js len (Some toks) n) =
      Some (Ok (Break c1 p2 (Some toks1)))"
    and pl: "JSMN_PARENT_LINKS cfg"
    and inv: "links_inv p toks" and bound: "length toks < 2 ^ 32"
  shows "links_inv p2 toks1"
proof -
  from after_scan_break [OF run] obtain t p1 where
    res: "jsmn_parse_string cfg p js len (Some toks) n = Some (Ok (JSMN_SUCCESS, p1, t))"
    by blast
  from parse_string_count [OF res] obtain toks' where t: "t = Some toks'" by blast
  from res obtain pf e where
    fx: "toksuper_fix cfg p (Some toks) = Ok pf" and
    fo: "str_found cfg (pf\<lparr>pos := e\<rparr>) toks n (pos pf) =
           Some (Ok (JSMN_SUCCESS, p1, t))"
    by (auto simp: jsmn_parse_string_def Let_def
             split: option.splits exec.splits if_splits scan.splits)
  from toksuper_fix_links [OF fx] have "links_inv pf toks"
    by (intro links_inv_up [OF inv bound]) simp_all
  then have i2: "links_inv (pf\<lparr>pos := e\<rparr>) toks" by (rule links_inv_cong) simp_all
  from run res t have
    "after_scan count (Some (Ok (JSMN_SUCCESS, p1, Some toks'))) =
       Some (Ok (Break c1 p2 (Some toks1)))"
    by simp
  with i2 bound str_found_links [OF fo [unfolded t] pl] show ?thesis
    by (rule scan_links)
qed


lemma alloc_token:
  "jsmn_alloc_token cfg p toks n = Ok (Some (i, p', toks')) \<Longrightarrow> JSMN_PARENT_LINKS cfg \<Longrightarrow>
   p' = p\<lparr>toknext := toknext p + 1\<rparr> \<and> i = unat (toknext p) \<and> i < length toks \<and>
   (\<exists>tk. toks' = toks[i := tk] \<and> tok_size tk = 0 \<and> tok_parent tk = JSMN_NEG \<and>
      links tk = (JSMN_NEG, 0))"
  by (auto simp: jsmn_alloc_token_def Let_def links_def split: if_splits)

lemma links_nth_update:
  "links y = links (xs ! j) \<Longrightarrow> links (xs[j := y] ! k) = links (xs ! k)"
  by (cases "j < length xs"; cases "k = j") (simp_all add: list_update_beyond not_less)

lemma next_sibling_nth:
  "jsmn_next_sibling p toks = Some (Ok toks') \<Longrightarrow>
   map links toks' = map links toks \<and> (\<forall>k. links (toks' ! k) = links (toks ! k))"
  by (auto simp: jsmn_next_sibling_def Let_def map_update links_nth_update
           split: option.splits exec.splits if_splits)

lemma open_links:
  assumes "jsmn_open cfg c count p (Some toks) n = Some (Ok (Break c1 p1 (Some toks1)))"
    and "JSMN_PARENT_LINKS cfg"
    and "toksuper p = JSMN_NEG \<or> unat (toksuper p) < unat (toknext p)"
  shows "unat (toknext p) < length toks \<and> toknext p1 = toknext p + 1 \<and>
         toksuper p1 = toknext p \<and>
         map links toks1 = attach (map links toks) (unat (toknext p)) (toksuper p)"
  using assms
  by (auto simp: jsmn_open_def Let_def map_update attach_def list_update_swap
           dest!: alloc_token next_sibling_nth
           split: option.splits exec.splits if_splits)


lemma open_inv:
  assumes run: "jsmn_open cfg c count p (Some toks) n = Some (Ok (Break c1 p1 (Some toks1)))"
    and pl: "JSMN_PARENT_LINKS cfg"
    and inv: "links_inv p toks" and bound: "length toks < 2 ^ 32"
  shows "links_inv p1 toks1"
proof -
  from inv have "toksuper p = JSMN_NEG \<or> unat (toksuper p) < unat (toknext p)"
    by (auto simp: links_inv_def)
  from open_links [OF run pl this] have
    lt: "unat (toknext p) < length toks" and n1: "toknext p1 = toknext p + 1" and
    s1: "toksuper p1 = toknext p" and
    att: "map links toks1 = attach (map links toks) (unat (toknext p)) (toksuper p)"
    by simp_all
  show ?thesis
    by (rule links_inv_attach [OF inv lt bound n1 att]) (simp add: s1)
qed

lemma close_loop_path:
  assumes run: "close_loop toks i = Some y"
    and lt: "\<forall>k<n. \<forall>q. parent_of toks k = Some q \<longrightarrow> q < k"
  shows "unat i < n \<longrightarrow>
     (\<forall>j. y = Ok (At_Open j) \<longrightarrow> unat j \<in> set (anc (parent_of toks) (unat i)) \<and> unat j < n)"
proof -
  let ?P = "\<lambda>toks' i y. toks' = toks \<longrightarrow> unat i < n \<longrightarrow>
     (\<forall>j. y = Ok (At_Open j) \<longrightarrow> unat j \<in> set (anc (parent_of toks) (unat i)) \<and> unat j < n)"
  have "?P toks i y"
  proof (rule close_loop.raw_induct [where P = ?P, OF _ run], intro impI, goal_cases)
    case (1 loop toks' i y)
    note IH = 1(1) [rule_format] and unf = 1(2) [unfolded 1(3)] and i = 1(4)
    show ?case
    proof (intro allI impI)
      fix j assume y: "y = Ok (At_Open j)"
      show "unat j \<in> set (anc (parent_of toks) (unat i)) \<and> unat j < n"
      proof (cases "tok_open (toks ! unat i)")
        case True
        with unf y have "j = i" by (auto split: if_splits)
        with i anc_self [of "unat i" "parent_of toks"] show ?thesis by simp
      next
        case False
        with unf y have ne: "tok_parent (toks ! unat i) \<noteq> JSMN_NEG" and
          rec: "loop toks (tok_parent (toks ! unat i)) = Some (Ok (At_Open j))"
          by (auto split: if_splits)
        from ne have P: "parent_of toks (unat i) = Some (unat (tok_parent (toks ! unat i)))"
          by (simp add: parent_of_def)
        with lt i have less: "unat (tok_parent (toks ! unat i)) < unat i" by blast
        with i have "unat (tok_parent (toks ! unat i)) < n" by simp
        from IH [OF rec refl this refl] have
          "unat j \<in> set (anc (parent_of toks) (unat (tok_parent (toks ! unat i))))" "unat j < n"
          by simp_all
        moreover from P less have "anc (parent_of toks) (unat i) =
          unat i # anc (parent_of toks) (unat (tok_parent (toks ! unat i)))"
          by (rule anc_Some)
        ultimately show ?thesis by simp
      qed
    qed
  qed
  then show ?thesis by simp
qed

lemma close_expected_links:
  "close_expected cfg count p toks = Ok (Break c1 p1 (Some toks1)) \<Longrightarrow>
   toknext p1 = toknext p \<and> toksuper p1 = toksuper p \<and> map links toks1 = map links toks"
  by (auto simp: close_expected_def Let_def map_update split: if_splits)

lemma close_links:
  assumes "jsmn_close cfg c count p (Some toks) = Some (Ok (Break c1 p1 (Some toks1)))"
    and "JSMN_PARENT_LINKS cfg"
  shows "toknext p1 = toknext p \<and> map links toks1 = map links toks \<and>
     (toksuper p1 = toksuper p \<or>
      (\<exists>j. close_loop toks (toknext p - 1) = Some (Ok (At_Open j)) \<and> toknext p \<noteq> 0 \<and>
           toksuper p1 = tok_parent (toks ! unat j)))"
  using assms
  by (auto simp: jsmn_close_def Let_def map_update word_less_1
           dest!: close_expected_links
           split: option.splits exec.splits if_splits climb.splits)

lemma close_inv:
  assumes run: "jsmn_close cfg c count p (Some toks) = Some (Ok (Break c1 p1 (Some toks1)))"
    and pl: "JSMN_PARENT_LINKS cfg"
    and inv: "links_inv p toks"
  shows "links_inv p1 toks1"
proof -
  let ?n = "unat (toknext p)"
  from close_links [OF run pl] have n: "toknext p1 = toknext p" and
    l: "map links toks1 = map links toks" and
    s: "toksuper p1 = toksuper p \<or>
      (\<exists>j. close_loop toks (toknext p - 1) = Some (Ok (At_Open j)) \<and> toknext p \<noteq> 0 \<and>
           toksuper p1 = tok_parent (toks ! unat j))"
    by simp_all
  from inv have nl: "?n \<le> length toks" and
    f: "forest (parent_of toks) (sizes toks ?n)" by (simp_all add: links_inv_def)
  then have lt: "\<forall>k<?n. \<forall>q. parent_of toks k = Some q \<longrightarrow> q < k"
    by (simp add: forest_def sizes_def)
  from s show ?thesis
  proof
    assume "toksuper p1 = toksuper p"
    then show ?thesis by (intro links_inv_move [OF inv l n]) simp
  next
    assume "\<exists>j. close_loop toks (toknext p - 1) = Some (Ok (At_Open j)) \<and> toknext p \<noteq> 0 \<and>
           toksuper p1 = tok_parent (toks ! unat j)"
    then obtain j where cl: "close_loop toks (toknext p - 1) = Some (Ok (At_Open j))"
      and n0: "toknext p \<noteq> 0" and sj: "toksuper p1 = tok_parent (toks ! unat j)"
      by blast
    from n0 have u: "unat (toknext p - 1) = ?n - 1" by (simp add: unat_minus_one)
    from n0 have "0 < ?n" by (simp add: unat_gt_0)
    with u have "unat (toknext p - 1) < ?n" by simp
    with close_loop_path [OF cl lt] u have
      "unat j \<in> set (anc (parent_of toks) (?n - 1))" "unat j < ?n"
      by simp_all
    with sj show ?thesis by (intro links_inv_move [OF inv l n]) blast
  qed
qed

lemma colon_links:
  "jsmn_colon cfg count p (Some toks) = Ok (Break c1 p1 (Some toks1)) \<Longrightarrow>
   toknext p1 = toknext p \<and> toksuper p1 = toknext p - 1 \<and> map links toks1 = map links toks"
  by (auto simp: jsmn_colon_def Let_def map_update split: if_splits)

lemma colon_inv:
  assumes run: "jsmn_colon cfg count p (Some toks) = Ok (Break c1 p1 (Some toks1))"
    and inv: "links_inv p toks"
  shows "links_inv p1 toks1"
  using colon_links [OF run] by (intro links_inv_move [OF inv]) simp_all

lemma parent_nth_update:
  "tok_parent y = tok_parent (xs ! j) \<Longrightarrow> tok_parent (xs[j := y] ! k) = tok_parent (xs ! k)"
  by (cases "j < length xs"; cases "k = j") (simp_all add: list_update_beyond not_less)

lemma comma_toksuper_links:
  "comma_toksuper cfg p toks = Ok p1 \<Longrightarrow> JSMN_PARENT_LINKS cfg \<Longrightarrow>
   toknext p1 = toknext p \<and>
   (toksuper p1 = toksuper p \<or>
    (unat (toksuper p) < length toks \<and> toksuper p1 = tok_parent (toks ! unat (toksuper p))))"
  by (auto simp: comma_toksuper_def split: if_splits)

lemma comma_links:
  assumes "jsmn_comma cfg count p (Some toks) = Ok (Break c1 p1 (Some toks1))"
    and "JSMN_PARENT_LINKS cfg"
  shows "toknext p1 = toknext p \<and> map links toks1 = map links toks \<and>
     (toksuper p1 = toksuper p \<or>
      (unat (toksuper p) < length toks \<and> toksuper p1 = tok_parent (toks ! unat (toksuper p))))"
  using assms
  by (auto simp: jsmn_comma_def Let_def map_update parent_nth_update
           dest!: comma_toksuper_links
           split: exec.splits if_splits)

lemma comma_inv:
  assumes run: "jsmn_comma cfg count p (Some toks) = Ok (Break c1 p1 (Some toks1))"
    and pl: "JSMN_PARENT_LINKS cfg"
    and inv: "links_inv p toks" and bound: "length toks < 2 ^ 32"
  shows "links_inv p1 toks1"
proof -
  from comma_links [OF run pl] have n: "toknext p1 = toknext p" and
    l: "map links toks1 = map links toks" and
    s: "toksuper p1 = toksuper p \<or>
      (unat (toksuper p) < length toks \<and> toksuper p1 = tok_parent (toks ! unat (toksuper p)))"
    by simp_all
  from links_inv_up [OF inv bound n s] have "links_inv p1 toks" .
  then show ?thesis by (rule links_inv_move [OF _ l refl]) simp
qed

lemma parse_char_inv:
  assumes run: "jsmn_parse_char cfg js len n count p (Some toks) =
      Some (Ok (Break c1 p1 (Some toks1)))"
    and pl: "JSMN_PARENT_LINKS cfg"
    and inv: "links_inv p toks" and bound: "length toks < 2 ^ 32"
  shows "links_inv p1 toks1"
  using run inv unfolding jsmn_parse_char_def Let_def
  by (auto split: if_splits
           intro: open_inv [OF _ pl inv bound] close_inv [OF _ pl inv] colon_inv [OF _ inv]
                  comma_inv [OF _ pl inv bound] after_string_links [OF _ pl inv bound]
                  after_primitive_links [OF _ pl inv bound] inv)

lemma reaches_links:
  assumes "reaches cfg js len n s (count, p, t)"
    and "s = (c0, p0, Some toks)" and "JSMN_PARENT_LINKS cfg"
    and "links_inv p0 toks" and "length toks < 2 ^ 32"
  shows "\<exists>toks'. t = Some toks' \<and> length toks' = length toks \<and> links_inv p toks'"
  using assms
proof (induction s "(count, p, t)" arbitrary: count p t rule: reaches.induct)
  case reaches_here
  then show ?case by simp
next
  case (reaches_step s count p t count1 p1 t1)
  from reaches_step(2) [OF reaches_step(5-8)] obtain toks' where
    t: "t = Some toks'" and len: "length toks' = length toks" and inv: "links_inv p toks'"
    by blast
  from parse_char_count [OF reaches_step(4) [unfolded t]] obtain toks1 where
    t1: "t1 = Some toks1" and len1: "length toks1 = length toks'"
    by blast
  from len reaches_step(8) have b: "length toks' < 2 ^ 32" by simp
  from parse_char_inv [OF reaches_step(4) [unfolded t t1] reaches_step(6) inv b]
  have "links_inv p1 toks1" .
  then have "links_inv (p1\<lparr>pos := pos p1 + 1\<rparr>) toks1" by (rule links_inv_cong) simp_all
  with t1 len1 len show ?case by simp
qed


subsection \<open>The links after a parse\<close>

lemma init_links: "links_inv (jsmn_init cfg) toks"
  by (simp add: links_inv_def jsmn_init_def forest_def sizes_def)

lemma parse_primitive_code:
  "jsmn_parse_primitive cfg p js len tokens n = Some (Ok (r, p', t')) \<Longrightarrow>
   r = JSMN_SUCCESS \<or> r = JSMN_ERROR_NOMEM \<or> r = JSMN_ERROR_INVAL \<or> r = JSMN_ERROR_PART"
  by (auto simp: jsmn_parse_primitive_def Let_def dest: prim_found_code
           split: option.splits exec.splits if_splits scan.splits)

lemma parse_string_code:
  "jsmn_parse_string cfg p js len tokens n = Some (Ok (r, p', t')) \<Longrightarrow>
   r = JSMN_SUCCESS \<or> r = JSMN_ERROR_NOMEM \<or> r = JSMN_ERROR_INVAL \<or> r = JSMN_ERROR_PART"
  by (auto simp: jsmn_parse_string_def Let_def dest: str_found_code
           split: option.splits exec.splits if_splits scan.splits)

lemma parse_char_code:
  assumes "jsmn_parse_char cfg js len n count p tokens = Some (Ok (Return r p' t'))"
  shows "r = JSMN_ERROR_NOMEM \<or> r = JSMN_ERROR_INVAL \<or> r = JSMN_ERROR_PART"
  using assms
  unfolding jsmn_parse_char_def Let_def
  by (auto simp: after_scan_return
           dest: parse_string_code parse_primitive_code open_code close_code colon_code
                 comma_code
           split: if_splits)

lemma parse_success:
  assumes run: "jsmn_parse cfg p0 js len tokens n = Some (Ok (r, p', t'))"
    and r: "r \<noteq> JSMN_ERROR_NOMEM" "r \<noteq> JSMN_ERROR_INVAL" "r \<noteq> JSMN_ERROR_PART"
  shows "reaches cfg js len n (toknext p0, p0, tokens) (r, p', t')"
proof -
  from run obtain res where
    loop: "jsmn_parse_loop cfg js len n (toknext p0) p0 tokens = Some (Ok res)"
    by (auto simp: jsmn_parse_def split: option.splits exec.splits)
  show ?thesis
  proof (cases res)
    case (Return r1 p1 t1)
    with run loop have "r1 = r" by (simp add: jsmn_parse_def)
    with loop_reaches [OF loop] Return r show ?thesis
      by (auto dest: parse_char_code)
  next
    case (Break c1 p1 t1)
    with run loop r have "c1 = r" "p1 = p'" "t1 = t'"
      by (auto simp: jsmn_parse_def split: option.splits exec.splits)
    with loop_reaches [OF loop] Break show ?thesis by simp
  qed
qed

lemma anc_last:
  assumes lt: "\<forall>k<n. \<forall>q. P k = Some q \<longrightarrow> q < k"
  shows "i < n \<Longrightarrow> last (anc P i) \<le> i \<and> P (last (anc P i)) = None"
proof (induction i rule: less_induct)
  case (less i)
  show ?case
  proof (cases "P i")
    case None
    then show ?thesis by (simp add: anc_None)
  next
    case (Some q)
    with lt less.prems have q: "q < i" by blast
    with Some have a: "anc P i = i # anc P q" by (rule anc_Some)
    from anc_self [of q P] have "anc P q \<noteq> []" by auto
    with a have "last (anc P i) = last (anc P q)" by simp
    with less.IH [OF q] q less.prems show ?thesis by simp
  qed
qed

lemma parent_steps_anc:
  assumes lt: "\<forall>k<n. \<forall>q. parent_of toks k = Some q \<longrightarrow> q < k"
  shows "i < n \<Longrightarrow> i \<le> fuel \<Longrightarrow>
     parent_steps toks fuel i =
       Some (length (anc (parent_of toks) i) - 1, last (anc (parent_of toks) i))"
proof (induction i arbitrary: fuel rule: less_induct)
  case (less i)
  let ?P = "parent_of toks"
  show ?case
  proof (cases "?P i")
    case None
    then have "tok_parent (toks ! i) = JSMN_NEG" by (simp add: parent_of_def split: if_splits)
    with None show ?thesis by (cases fuel) (simp_all add: anc_None)
  next
    case (Some q)
    then have ne: "tok_parent (toks ! i) \<noteq> JSMN_NEG" and
      q: "q = unat (tok_parent (toks ! i))"
      by (auto simp: parent_of_def split: if_splits)
    from Some lt less.prems have qi: "q < i" by blast
    with less.prems obtain f where f: "fuel = Suc f" "q \<le> f" by (cases fuel) auto
    from qi less.prems have "q < n" by simp
    from less.IH [OF qi this f(2)] have
      ih: "parent_steps toks f q = Some (length (anc ?P q) - 1, last (anc ?P q))" .
    from Some qi have a: "anc ?P i = i # anc ?P q" by (rule anc_Some)
    from anc_self [of q ?P] have ne': "anc ?P q \<noteq> []" by auto
    then have "0 < length (anc ?P q)" by simp
    with a ne' ih ne q f show ?thesis by simp
  qed
qed


text \<open>
  Claim C9, as amended. With \<^verbatim>\<open>JSMN_PARENT_LINKS\<close>, in both dialects: when \<^verbatim>\<open>jsmn_parse\<close>
  on a freshly initialised parser, with a pool of fewer than \<open>2^32\<close> tokens, returns a
  count \<open>r\<close> and not an error, then from every token \<open>i < r\<close> following the \<open>parent\<close>
  field arrives, in exactly as many steps as the depth of the token in the token tree,
  at a token whose \<open>parent\<close> is \<^verbatim>\<open>JSMN_NEG\<close> and whose depth is 0; and the \<open>parent\<close> of
  token 0 is \<^verbatim>\<open>JSMN_NEG\<close>. The token tree is the one that the \<open>size\<close> fields describe, in
  which a key is a child of its object and a value is the child of its key; the depth is
  read off the \<open>size\<close> fields alone.
\<close>

theorem parent_links_depth:
  assumes pl: "JSMN_PARENT_LINKS cfg" and bound: "length toks < 2 ^ 32"
    and run: "jsmn_parse cfg (jsmn_init cfg) js len (Some toks) n =
                Some (Ok (r, p', Some toks'))"
    and r: "r \<noteq> JSMN_ERROR_NOMEM" "r \<noteq> JSMN_ERROR_INVAL" "r \<noteq> JSMN_ERROR_PART"
    and i: "i < unat r"
  shows "\<exists>root. root \<le> i \<and>
           parent_steps toks' (unat r) i = Some (tree_depths toks' (unat r) ! i, root) \<and>
           tok_parent (toks' ! root) = JSMN_NEG \<and>
           tree_depths toks' (unat r) ! root = 0 \<and>
           tok_parent (toks' ! 0) = JSMN_NEG"
proof -
  let ?P = "parent_of toks'"
  let ?n = "unat r"
  from parse_success [OF run r] have
    re: "reaches cfg js len n (toknext (jsmn_init cfg), jsmn_init cfg, Some toks)
           (r, p', Some toks')" .
  from reaches_count_eq [OF re refl] have rn: "r = toknext p'" by simp
  from reaches_links [OF re refl pl init_links bound] have inv: "links_inv p' toks'"
    by simp
  from inv rn have nl: "?n \<le> length toks'" and f: "forest ?P (sizes toks' ?n)"
    by (simp_all add: links_inv_def)
  from nl have ln: "length (sizes toks' ?n) = ?n" by (simp add: sizes_def)
  from f ln have lt: "\<forall>k<?n. \<forall>q. ?P k = Some q \<longrightarrow> q < k"
    by (simp add: forest_def)
  from decoder_depths [OF f] ln have
    d: "tree_depths toks' ?n = map (\<lambda>i. length (anc ?P i) - 1) [0 ..< ?n]"
    by (simp add: tree_depths_def)
  have dk: "tree_depths toks' ?n ! k = length (anc ?P k) - 1" if "k < ?n" for k
    unfolding d using that by simp
  let ?root = "last (anc ?P i)"
  from anc_last [OF lt i] have root: "?root \<le> i" "?P ?root = None" by simp_all
  from root(1) i have rl: "?root < ?n" by simp
  from root(2) have "tok_parent (toks' ! ?root) = JSMN_NEG"
    by (simp add: parent_of_def split: if_splits)
  moreover from root(2) have "anc ?P ?root = [?root]" by (rule anc_None)
  with dk [OF rl] have "tree_depths toks' ?n ! ?root = 0" by simp
  moreover from i have "i \<le> ?n" by simp
  from parent_steps_anc [OF lt i this] dk [OF i] have
    "parent_steps toks' ?n i = Some (tree_depths toks' ?n ! i, ?root)" by simp
  moreover have "tok_parent (toks' ! 0) = JSMN_NEG"
  proof -
    from i have "0 < ?n" by simp
    with lt have "?P 0 = None" by (cases "?P 0") auto
    then show ?thesis by (simp add: parent_of_def split: if_splits)
  qed
  ultimately show ?thesis using root(1) by blast
qed

theorem parent_links_depth_witness:
  "JSMN_PARENT_LINKS (strict_build True False) \<and>
   length [zero_token, zero_token, zero_token] < 2 ^ 32 \<and>
   jsmn_parse (strict_build True False) (jsmn_init (strict_build True False)) ''{\"a\":1}'' 7
     (Some [zero_token, zero_token, zero_token]) 3 =
   Some (Ok (3, \<lparr>pos = 7, toknext = 3, toksuper = JSMN_NEG, expected = JSMN_CONTAINER\<rparr>,
     Some [zero_token\<lparr>tok_type := JSMN_OBJECT OR JSMN_VALUE, tok_start := 0, tok_end := 7,
                      tok_size := 1, tok_parent := JSMN_NEG\<rparr>,
           zero_token\<lparr>tok_type := JSMN_STRING OR JSMN_KEY, tok_start := 2, tok_end := 3,
                      tok_size := 1, tok_parent := 0\<rparr>,
           zero_token\<lparr>tok_type := JSMN_PRIMITIVE OR JSMN_VALUE, tok_start := 5, tok_end := 6,
                      tok_size := 0, tok_parent := 1\<rparr>])) \<and>
   (3 :: jsmnint_t) \<noteq> JSMN_ERROR_NOMEM \<and> (3 :: jsmnint_t) \<noteq> JSMN_ERROR_INVAL \<and>
   (3 :: jsmnint_t) \<noteq> JSMN_ERROR_PART \<and> 2 < unat (3 :: jsmnint_t) \<and>
   (\<exists>root. root \<le> 2 \<and>
      parent_steps
        [zero_token\<lparr>tok_type := JSMN_OBJECT OR JSMN_VALUE, tok_start := 0, tok_end := 7,
                    tok_size := 1, tok_parent := JSMN_NEG\<rparr>,
         zero_token\<lparr>tok_type := JSMN_STRING OR JSMN_KEY, tok_start := 2, tok_end := 3,
                    tok_size := 1, tok_parent := 0\<rparr>,
         zero_token\<lparr>tok_type := JSMN_PRIMITIVE OR JSMN_VALUE, tok_start := 5, tok_end := 6,
                    tok_size := 0, tok_parent := 1\<rparr>] (unat (3 :: jsmnint_t)) 2 =
      Some (tree_depths
        [zero_token\<lparr>tok_type := JSMN_OBJECT OR JSMN_VALUE, tok_start := 0, tok_end := 7,
                    tok_size := 1, tok_parent := JSMN_NEG\<rparr>,
         zero_token\<lparr>tok_type := JSMN_STRING OR JSMN_KEY, tok_start := 2, tok_end := 3,
                    tok_size := 1, tok_parent := 0\<rparr>,
         zero_token\<lparr>tok_type := JSMN_PRIMITIVE OR JSMN_VALUE, tok_start := 5, tok_end := 6,
                    tok_size := 0, tok_parent := 1\<rparr>] (unat (3 :: jsmnint_t)) ! 2, root))"
proof -
  let ?cfg = "strict_build True False"
  let ?T = "[zero_token\<lparr>tok_type := JSMN_OBJECT OR JSMN_VALUE, tok_start := 0, tok_end := 7,
                    tok_size := 1, tok_parent := JSMN_NEG\<rparr>,
         zero_token\<lparr>tok_type := JSMN_STRING OR JSMN_KEY, tok_start := 2, tok_end := 3,
                    tok_size := 1, tok_parent := 0\<rparr>,
         zero_token\<lparr>tok_type := JSMN_PRIMITIVE OR JSMN_VALUE, tok_start := 5, tok_end := 6,
                    tok_size := 0, tok_parent := 1\<rparr>]"
  have h1: "JSMN_PARENT_LINKS ?cfg" by (simp add: strict_build_def)
  have h2: "length [zero_token, zero_token, zero_token] < 2 ^ 32" by simp
  have h3: "jsmn_parse ?cfg (jsmn_init ?cfg) ''{\"a\":1}'' 7
     (Some [zero_token, zero_token, zero_token]) 3 =
     Some (Ok (3, \<lparr>pos = 7, toknext = 3, toksuper = JSMN_NEG, expected = JSMN_CONTAINER\<rparr>,
       Some ?T))"
    by (simp add: jsmn_eval strict_build_def zero_token_def)
  have h4: "(3 :: jsmnint_t) \<noteq> JSMN_ERROR_NOMEM" "(3 :: jsmnint_t) \<noteq> JSMN_ERROR_INVAL"
    "(3 :: jsmnint_t) \<noteq> JSMN_ERROR_PART"
    by (simp_all add: jsmn_consts)
  have h5: "2 < unat (3 :: jsmnint_t)" by simp
  from parent_links_depth [OF h1 h2 h3 h4 h5] obtain root where
    "root \<le> 2 \<and> parent_steps ?T (unat (3 :: jsmnint_t)) 2 =
        Some (tree_depths ?T (unat (3 :: jsmnint_t)) ! 2, root)"
    by blast
  then have "\<exists>root. root \<le> 2 \<and> parent_steps ?T (unat (3 :: jsmnint_t)) 2 =
        Some (tree_depths ?T (unat (3 :: jsmnint_t)) ! 2, root)" by blast
  with h1 h2 h3 h4 h5 show ?thesis by (intro conjI) assumption+
qed


text \<open>
  Claim C9 fails when the nesting depth is the one of the JSON text: in \<^verbatim>\<open>{"a":1}\<close> the
  primitive \<^verbatim>\<open>1\<close> is inside one container, and its \<open>parent\<close> is the key \<^verbatim>\<open>a\<close>, whose
  \<open>parent\<close> is the object: two steps.
\<close>

theorem parent_steps_counterexample:
  "jsmn_parse (strict_build True False) (jsmn_init (strict_build True False)) ''{\"a\":1}'' 7
     (Some [zero_token, zero_token, zero_token]) 3 =
   Some (Ok (3, \<lparr>pos = 7, toknext = 3, toksuper = JSMN_NEG, expected = JSMN_CONTAINER\<rparr>,
     Some [zero_token\<lparr>tok_type := JSMN_OBJECT OR JSMN_VALUE, tok_start := 0, tok_end := 7,
                      tok_size := 1, tok_parent := JSMN_NEG\<rparr>,
           zero_token\<lparr>tok_type := JSMN_STRING OR JSMN_KEY, tok_start := 2, tok_end := 3,
                      tok_size := 1, tok_parent := 0\<rparr>,
           zero_token\<lparr>tok_type := JSMN_PRIMITIVE OR JSMN_VALUE, tok_start := 5, tok_end := 6,
                      tok_size := 0, tok_parent := 1\<rparr>])) \<and>
   parent_steps
     [zero_token\<lparr>tok_type := JSMN_OBJECT OR JSMN_VALUE, tok_start := 0, tok_end := 7,
                 tok_size := 1, tok_parent := JSMN_NEG\<rparr>,
      zero_token\<lparr>tok_type := JSMN_STRING OR JSMN_KEY, tok_start := 2, tok_end := 3,
                 tok_size := 1, tok_parent := 0\<rparr>,
      zero_token\<lparr>tok_type := JSMN_PRIMITIVE OR JSMN_VALUE, tok_start := 5, tok_end := 6,
                 tok_size := 0, tok_parent := 1\<rparr>] 3 2 = Some (2, 0) \<and>
   nesting_depth
     [zero_token\<lparr>tok_type := JSMN_OBJECT OR JSMN_VALUE, tok_start := 0, tok_end := 7,
                 tok_size := 1, tok_parent := JSMN_NEG\<rparr>,
      zero_token\<lparr>tok_type := JSMN_STRING OR JSMN_KEY, tok_start := 2, tok_end := 3,
                 tok_size := 1, tok_parent := 0\<rparr>,
      zero_token\<lparr>tok_type := JSMN_PRIMITIVE OR JSMN_VALUE, tok_start := 5, tok_end := 6,
                 tok_size := 0, tok_parent := 1\<rparr>] 3 2 = 1"
proof -
  have "[0 ..< 3] = [0, 1, 2]" by (simp add: upt_rec)
  then have d: "nesting_depth
     [zero_token\<lparr>tok_type := JSMN_OBJECT OR JSMN_VALUE, tok_start := 0, tok_end := 7,
                 tok_size := 1, tok_parent := JSMN_NEG\<rparr>,
      zero_token\<lparr>tok_type := JSMN_STRING OR JSMN_KEY, tok_start := 2, tok_end := 3,
                 tok_size := 1, tok_parent := 0\<rparr>,
      zero_token\<lparr>tok_type := JSMN_PRIMITIVE OR JSMN_VALUE, tok_start := 5, tok_end := 6,
                 tok_size := 0, tok_parent := 1\<rparr>] 3 2 = 1"
    by (simp add: nesting_depth_def encloses_def jsmn_is_type_def jsmn_consts zero_token_def)
  have s: "parent_steps
     [zero_token\<lparr>tok_type := JSMN_OBJECT OR JSMN_VALUE, tok_start := 0, tok_end := 7,
                 tok_size := 1, tok_parent := JSMN_NEG\<rparr>,
      zero_token\<lparr>tok_type := JSMN_STRING OR JSMN_KEY, tok_start := 2, tok_end := 3,
                 tok_size := 1, tok_parent := 0\<rparr>,
      zero_token\<lparr>tok_type := JSMN_PRIMITIVE OR JSMN_VALUE, tok_start := 5, tok_end := 6,
                 tok_size := 0, tok_parent := 1\<rparr>] 3 2 = Some (2, 0)"
    by (simp add: numeral_3_eq_3 JSMN_NEG_def zero_token_def)
  have p: "jsmn_parse (strict_build True False) (jsmn_init (strict_build True False))
     ''{\"a\":1}'' 7 (Some [zero_token, zero_token, zero_token]) 3 =
   Some (Ok (3, \<lparr>pos = 7, toknext = 3, toksuper = JSMN_NEG, expected = JSMN_CONTAINER\<rparr>,
     Some [zero_token\<lparr>tok_type := JSMN_OBJECT OR JSMN_VALUE, tok_start := 0, tok_end := 7,
                      tok_size := 1, tok_parent := JSMN_NEG\<rparr>,
           zero_token\<lparr>tok_type := JSMN_STRING OR JSMN_KEY, tok_start := 2, tok_end := 3,
                      tok_size := 1, tok_parent := 0\<rparr>,
           zero_token\<lparr>tok_type := JSMN_PRIMITIVE OR JSMN_VALUE, tok_start := 5, tok_end := 6,
                      tok_size := 0, tok_parent := 1\<rparr>]))"
    by (simp add: jsmn_eval strict_build_def zero_token_def)
  from p s d show ?thesis by (intro conjI)
qed

end
